theory Spec2Isabelle
  imports Complex_Main "HOL-Library.Log_Nat"
begin

text \<open>
  A shallow embedding of the two computational cores of the audio player: the waveform
  decimation job (\<^verbatim>\<open>audioplayer/waveform.py\<close>) with the scheduler that consumes its
  callbacks (\<^verbatim>\<open>audioplayer/controllers/waveform_controller.py\<close>,
  \<^verbatim>\<open>audioplayer/main_window.py\<close>), and the channel routing engine with its routed-file
  cache (\<^verbatim>\<open>app.py\<close>).

  Conventions. Python's unbounded ints are \<open>int\<close>; counts and indices that the code keeps
  non-negative are \<open>nat\<close>. A \<^verbatim>\<open>float32\<close> sample is a value of \<open>f32\<close>: a finite
  value carried as an exact rational, the two infinities, or NaN. Taking absolute values,
  maxima and minima, and clipping never round, so they are exact on this type. A quotient
  or a sum that decides a bin count or a gain is rounded to the floating-point format in
  which the code computes it; the time axis of a waveform, which no property below reads,
  is kept exact. Exceptions are values: a function that can raise returns an \<open>option\<close>
  or a sum.
\<close>

section \<open>Floating-point arithmetic\<close>

text \<open>
  Python's \<^verbatim>\<open>float\<close> is IEEE binary64 and NumPy's \<^verbatim>\<open>float32\<close> is IEEE binary32. A
  finite value of either format is carried as the rational number it denotes, and an
  arithmetic operation is the exact operation followed by rounding to the nearest
  representable number, a tie going to the even significand.
\<close>

text \<open>Rounding to the nearest integer, a tie to the even one.\<close>

definition round_half_even :: "rat \<Rightarrow> int" where
  "round_half_even x =
     (let f = \<lfloor>x\<rfloor>; d = x - of_int f
      in if d < 1 / 2 then f else if 1 / 2 < d then f + 1 else if even f then f else f + 1)"

text \<open>The binary exponent of a nonzero rational: \<open>2 powi (ilog2 q) \<le> \<bar>q\<bar> < 2 powi (ilog2 q + 1)\<close>.
  It is found from the bit lengths of numerator and denominator, which give it up to one.\<close>

definition ilog2 :: "rat \<Rightarrow> int" where
  "ilog2 q =
     (let (a, b) = quotient_of \<bar>q\<bar>; e = bitlen a - bitlen b
      in if 2 powi e \<le> \<bar>q\<bar> then e else e - 1)"

text \<open>
  Rounding to \<open>p\<close> significant bits: the representable numbers around \<open>q\<close> are the
  multiples of \<open>2 powi (ilog2 q - (p - 1))\<close>. The exponent is not bounded, so this is the
  IEEE result whenever the magnitude of \<open>q\<close> lies in the normal range of the format, from
  \<open>2 powi - 1022\<close> to \<open>2 powi 1024\<close> for binary64 and from \<open>2 powi - 126\<close> to
  \<open>2 powi 128\<close> for binary32, where every value that the functions below round does lie
  for frame counts, channel counts and point counts below \<open>2 ^ 1022\<close>. The overflow to an
  infinity or to an \<^verbatim>\<open>OverflowError\<close> and the gradual underflow outside that range are
  not part of the model.
\<close>

definition round_to :: "nat \<Rightarrow> rat \<Rightarrow> rat" where
  "round_to p q =
     (if q = 0 then 0
      else let u = 2 powi (ilog2 q - (int p - 1)) in of_int (round_half_even (q / u)) * u)"

definition float64 :: "rat \<Rightarrow> rat" where
  "float64 = round_to 53"

definition float32 :: "rat \<Rightarrow> rat" where
  "float32 = round_to 24"

section \<open>Waveform decimation job\<close>

subsection \<open>Bucket arithmetic\<close>

text \<open>
  \<^verbatim>\<open>math.ceil(a / b)\<close> of \<^verbatim>\<open>WaveformJob.run\<close>: Python's true division of two
  ints, which is the exact quotient rounded to the nearest binary64 number, followed by
  the ceiling of that number. A division by zero raises \<^verbatim>\<open>ZeroDivisionError\<close>: the
  value \<open>None\<close>.
\<close>

definition ceil_div :: "int \<Rightarrow> int \<Rightarrow> int option" where
  "ceil_div a b = (if b = 0 then None else Some \<lceil>float64 (rat_of_int a / rat_of_int b)\<rceil>)"

text \<open>\<^verbatim>\<open>bucket = max(1, math.ceil(total_frames / self.points))\<close>\<close>

definition bucket_of :: "int \<Rightarrow> int \<Rightarrow> int option" where
  "bucket_of total_frames pts = map_option (max 1) (ceil_div total_frames pts)"

text \<open>\<^verbatim>\<open>bins = max(1, math.ceil(total_frames / bucket))\<close>\<close>

definition bins_of :: "int \<Rightarrow> int \<Rightarrow> int option" where
  "bins_of total_frames bucket = map_option (max 1) (ceil_div total_frames bucket)"

subsection \<open>Samples and two-dimensional arrays\<close>

datatype f32 = NaN | NegInf | Finite rat | PosInf

text \<open>\<^verbatim>\<open>np.abs\<close>, \<^verbatim>\<open>np.maximum\<close> and \<^verbatim>\<open>np.minimum\<close> on one element: NaN propagates.\<close>

fun np_abs :: "f32 \<Rightarrow> f32" where
  "np_abs NaN = NaN"
| "np_abs NegInf = PosInf"
| "np_abs (Finite r) = Finite \<bar>r\<bar>"
| "np_abs PosInf = PosInf"

fun np_maximum :: "f32 \<Rightarrow> f32 \<Rightarrow> f32" where
  "np_maximum NaN b = NaN"
| "np_maximum a NaN = NaN"
| "np_maximum PosInf b = PosInf"
| "np_maximum a PosInf = PosInf"
| "np_maximum NegInf b = b"
| "np_maximum a NegInf = a"
| "np_maximum (Finite a) (Finite b) = Finite (max a b)"

fun np_minimum :: "f32 \<Rightarrow> f32 \<Rightarrow> f32" where
  "np_minimum NaN b = NaN"
| "np_minimum a NaN = NaN"
| "np_minimum NegInf b = NegInf"
| "np_minimum a NegInf = NegInf"
| "np_minimum PosInf b = b"
| "np_minimum a PosInf = a"
| "np_minimum (Finite a) (Finite b) = Finite (min a b)"

text \<open>
  A two-dimensional \<^verbatim>\<open>float32\<close> array: \<open>cols\<close> is \<^verbatim>\<open>shape[1]\<close>, \<open>cells\<close> holds the
  \<^verbatim>\<open>shape[0]\<close> rows. A numpy array is rectangular: every row has \<open>cols\<close> entries
  (\<open>wf_array2d\<close>); an array with no rows still has a column count.
\<close>

record array2d =
  cols :: nat
  cells :: "f32 list list"

definition nrows :: "array2d \<Rightarrow> nat" where
  "nrows a = length (cells a)"

definition size2d :: "array2d \<Rightarrow> nat" where
  "size2d a = nrows a * cols a"

definition wf_array2d :: "array2d \<Rightarrow> bool" where
  "wf_array2d a = list_all (\<lambda>r. length r = cols a) (cells a)"

definition zeros2d :: "nat \<Rightarrow> nat \<Rightarrow> array2d" where
  "zeros2d n c = \<lparr>cols = c, cells = replicate n (replicate c (Finite 0))\<rparr>"

definition column :: "array2d \<Rightarrow> nat \<Rightarrow> f32 list" where
  "column a c = map (\<lambda>r. r ! c) (cells a)"

subsection \<open>One chunk of the streaming loop\<close>

text \<open>
  \<^verbatim>\<open>idx = (frame_pos + np.arange(frame_count, dtype=np.int64)) // bucket\<close> followed by
  \<^verbatim>\<open>idx[idx >= bins] = bins - 1\<close>.
\<close>

definition bin_index :: "nat \<Rightarrow> nat \<Rightarrow> nat \<Rightarrow> nat" where
  "bin_index bucket bins pos = (let q = pos div bucket in if q \<ge> bins then bins - 1 else q)"

definition bin_indices :: "nat \<Rightarrow> nat \<Rightarrow> nat \<Rightarrow> nat \<Rightarrow> nat list" where
  "bin_indices bucket bins frame_pos frame_count =
     map (\<lambda>i. bin_index bucket bins (frame_pos + i)) [0..<frame_count]"

text \<open>
  \<^verbatim>\<open>np.maximum.at(amp[:, c], idx, vals)\<close>: unbuffered and in place, one element after the
  other: \<^verbatim>\<open>amp[idx[k], c] = maximum(amp[idx[k], c], vals[k])\<close>. An index beyond the last
  row raises \<^verbatim>\<open>IndexError\<close>: the value \<open>None\<close>.
\<close>

fun maximum_at :: "f32 list list \<Rightarrow> nat \<Rightarrow> (nat \<times> f32) list \<Rightarrow> f32 list list option" where
  "maximum_at m c [] = Some m"
| "maximum_at m c ((i, v) # ivs) =
     (if i < length m
      then maximum_at (m[i := (m ! i)[c := np_maximum (m ! i ! c) v]]) c ivs
      else None)"

text \<open>
  \<^verbatim>\<open>for channel_index in range(channel_count): np.maximum.at(...)\<close>. Taking column
  \<open>c\<close> of an array with fewer columns raises \<^verbatim>\<open>IndexError\<close>.
\<close>

fun update_channels :: "array2d \<Rightarrow> nat list \<Rightarrow> array2d \<Rightarrow> nat list \<Rightarrow> array2d option" where
  "update_channels amp idx abs_chunk [] = Some amp"
| "update_channels amp idx abs_chunk (c # cs) =
     (if c < cols amp \<and> c < cols abs_chunk
      then (case maximum_at (cells amp) c (zip idx (column abs_chunk c)) of
              None \<Rightarrow> None
            | Some m \<Rightarrow> update_channels (amp\<lparr>cells := m\<rparr>) idx abs_chunk cs)
      else None)"

text \<open>The numeric part of the loop body, from \<^verbatim>\<open>abs_chunk = np.abs(chunk)\<close> to the
  last \<^verbatim>\<open>np.maximum.at\<close>.\<close>

definition process_chunk :: "nat \<Rightarrow> nat \<Rightarrow> array2d \<Rightarrow> nat \<Rightarrow> array2d \<Rightarrow> array2d option" where
  "process_chunk bucket bins amp frame_pos chunk =
     (let abs_chunk = chunk\<lparr>cells := map (map np_abs) (cells chunk)\<rparr>;
          frame_count = nrows abs_chunk;
          idx = bin_indices bucket bins frame_pos frame_count;
          channel_count = min (cols amp) (cols abs_chunk)
      in update_channels amp idx abs_chunk [0..<channel_count])"

subsection \<open>The job: \<^verbatim>\<open>WaveformJob.run\<close>\<close>

text \<open>
  Exceptions that reach the handler of \<^verbatim>\<open>run\<close>, and the three signals of the job.
  \<^verbatim>\<open>str(exc)\<close> of a library error is the text the library gave.
\<close>

datatype exn = ZeroDivisionError | IndexError | LibraryError string

fun str_exn :: "exn \<Rightarrow> string" where
  "str_exn ZeroDivisionError = ''division by zero''"
| "str_exn IndexError = ''index out of bounds''"
| "str_exn (LibraryError msg) = msg"

datatype event =
    ProgressReady int string "rat list" array2d nat nat
  | ResultReady int string "rat list" array2d
  | ErrorRaised int string string

record job =
  request_id :: int
  path :: string
  points :: int
  emit_progress :: bool
  progress_interval :: rat

record sf_info =
  frames :: int
  samplerate :: int
  channels :: int

text \<open>
  What one run of the job observes from outside: the header probe \<^verbatim>\<open>sf.info\<close>, whether
  opening the file raises, the outcome of each \<^verbatim>\<open>audio_file.read\<close> in order (a read past
  the end of the list is the empty chunk of the end of the file), the clock
  \<^verbatim>\<open>time.monotonic()\<close> at each iteration, and the cancellation flag. The flag is only
  ever set (\<^verbatim>\<open>cancel\<close>), by another thread: \<open>cancel_at = Some j\<close> says that the job's
  reads of the flag numbered \<open>j\<close> and later see it set, \<open>None\<close> that it is never set.
  The job reads the flag once at the head of every iteration and once after the loop or in
  the exception handler.
\<close>

record world =
  info :: "exn + sf_info"
  open_error :: "exn option"
  reads :: "(exn + array2d) list"
  monotonic :: "nat \<Rightarrow> rat"
  cancel_at :: "nat option"

definition cancelled :: "world \<Rightarrow> nat \<Rightarrow> bool" where
  "cancelled w k = (case cancel_at w of None \<Rightarrow> False | Some j \<Rightarrow> j \<le> k)"

text \<open>\<^verbatim>\<open>np.linspace(0, stop, num)\<close>, in exact arithmetic.\<close>

definition linspace :: "rat \<Rightarrow> nat \<Rightarrow> rat list" where
  "linspace stop num =
     (if num = 1 then [0] else map (\<lambda>i. rat_of_nat i * (stop / rat_of_nat (num - 1))) [0..<num])"

text \<open>\<^verbatim>\<open>filled = min(bins, math.ceil(frame_pos / bucket))\<close>, for \<open>bucket > 0\<close>.\<close>

definition filled_bins :: "nat \<Rightarrow> nat \<Rightarrow> nat \<Rightarrow> nat" where
  "filled_bins bins frame_pos bucket =
     min bins (nat \<lceil>float64 (rat_of_nat frame_pos / rat_of_nat bucket)\<rceil>)"

text \<open>
  The \<^verbatim>\<open>while not self._cancelled\<close> loop. Iteration \<open>k\<close> reads the flag, reads a
  chunk, leaves the loop on an empty one, folds the chunk into \<open>amp\<close> and may emit a
  progress signal with a copy of \<open>amp\<close>. The result is the signals emitted, how the loop
  ended (an exception, or the accumulator at a normal exit), and the number of flag reads
  made so far.
\<close>

fun stream ::
  "job \<Rightarrow> world \<Rightarrow> nat \<Rightarrow> nat \<Rightarrow> rat list \<Rightarrow> nat \<Rightarrow> (exn + array2d) list \<Rightarrow> array2d \<Rightarrow> nat \<Rightarrow> rat
     \<Rightarrow> event list \<times> (exn + array2d) \<times> nat" where
  "stream j w bucket bins x k [] amp frame_pos last_emit = ([], Inr amp, Suc k)"
| "stream j w bucket bins x k (r # rs) amp frame_pos last_emit =
     (if cancelled w k then ([], Inr amp, Suc k)
      else case r of
        Inl e \<Rightarrow> ([], Inl e, Suc k)
      | Inr chunk \<Rightarrow>
          if size2d chunk = 0 then ([], Inr amp, Suc k)
          else (case process_chunk bucket bins amp frame_pos chunk of
            None \<Rightarrow> ([], Inl IndexError, Suc k)
          | Some amp' \<Rightarrow>
              let frame_pos' = frame_pos + nrows chunk;
                  now = monotonic w k;
                  emit = (emit_progress j \<and> now - last_emit \<ge> progress_interval j);
                  evs = (if emit
                         then [ProgressReady (request_id j) (path j) x amp'
                                 (filled_bins bins frame_pos' bucket) bins]
                         else []);
                  last_emit' = (if emit then now else last_emit);
                  (evs', res, k') = stream j w bucket bins x (Suc k) rs amp' frame_pos' last_emit'
              in (evs @ evs', res, k')))"

text \<open>The \<^verbatim>\<open>except Exception\<close> handler: it reads the flag and reports unless cancelled.\<close>

definition on_exception :: "job \<Rightarrow> world \<Rightarrow> nat \<Rightarrow> exn \<Rightarrow> event list" where
  "on_exception j w k e =
     (if \<not> cancelled w k then [ErrorRaised (request_id j) (path j) (str_exn e)] else [])"

definition run :: "job \<Rightarrow> world \<Rightarrow> event list" where
  "run j w =
     (case info w of
        Inl e \<Rightarrow> on_exception j w 0 e
      | Inr i \<Rightarrow>
          let total_frames = frames i;
              sample_rate = samplerate i;
              chans = nat (max 1 (channels i))
          in if total_frames \<le> 0 \<or> sample_rate \<le> 0
             then [ResultReady (request_id j) (path j) [0] (zeros2d 1 chans)]
             else (case bucket_of total_frames (points j) of
               None \<Rightarrow> on_exception j w 0 ZeroDivisionError
             | Some bucket \<Rightarrow>
                 (case bins_of total_frames bucket of
                    None \<Rightarrow> on_exception j w 0 ZeroDivisionError
                  | Some bins \<Rightarrow>
                      let x = linspace (rat_of_int total_frames / rat_of_int sample_rate) (nat bins);
                          amp = zeros2d (nat bins) chans
                      in (case open_error w of
                            Some e \<Rightarrow> on_exception j w 0 e
                          | None \<Rightarrow>
                              (case stream j w (nat bucket) (nat bins) x 0 (reads w) amp 0 0 of
                                 (evs, Inl e, k) \<Rightarrow> evs @ on_exception j w k e
                               | (evs, Inr amp', k) \<Rightarrow>
                                   if cancelled w k then evs
                                   else evs @ [ResultReady (request_id j) (path j) x amp'])))))"

section \<open>Waveform scheduler\<close>

subsection \<open>Arrays handed to the plot\<close>

text \<open>\<^verbatim>\<open>np.nan_to_num(a, nan=.., posinf=.., neginf=..)\<close> and \<^verbatim>\<open>np.clip(a, lo, hi)\<close>, which
  is \<^verbatim>\<open>minimum(maximum(a, lo), hi)\<close>, on one element.\<close>

fun nan_to_num :: "rat \<Rightarrow> rat \<Rightarrow> rat \<Rightarrow> f32 \<Rightarrow> f32" where
  "nan_to_num nan posinf neginf NaN = Finite nan"
| "nan_to_num nan posinf neginf PosInf = Finite posinf"
| "nan_to_num nan posinf neginf NegInf = Finite neginf"
| "nan_to_num nan posinf neginf (Finite r) = Finite r"

definition np_clip :: "f32 \<Rightarrow> rat \<Rightarrow> rat \<Rightarrow> f32" where
  "np_clip v lo hi = np_minimum (np_maximum v (Finite lo)) (Finite hi)"

text \<open>
  \<^verbatim>\<open>_align_wave_channels\<close>, for the one-dimensional time axis and the two-dimensional
  amplitude array that the job's signals carry (the reshaping of arrays of other ranks
  does not apply to them): both are cut to their common length, then the amplitudes go
  through \<^verbatim>\<open>nan_to_num(nan=0.0, posinf=1.0, neginf=0.0)\<close> and \<^verbatim>\<open>clip(0.0, 1.0)\<close>.
\<close>

definition align_wave_channels :: "rat list \<Rightarrow> array2d \<Rightarrow> rat list \<times> array2d" where
  "align_wave_channels x_arr amp_arr =
     (if length x_arr = 0 \<or> size2d amp_arr = 0 then ([], \<lparr>cols = 1, cells = []\<rparr>)
      else let n = min (length x_arr) (nrows amp_arr)
           in (take n x_arr,
               amp_arr\<lparr>cells := map (map (\<lambda>v. np_clip (nan_to_num 0 1 0 v) 0 1))
                                     (take n (cells amp_arr))\<rparr>))"

subsection \<open>State of the scheduler\<close>

text \<open>Decimal text of an int, as an f-string prints it.\<close>

function str_digits :: "int \<Rightarrow> string" where
  "str_digits n = (if n < 10 then [char_of (48 + n)] else str_digits (n div 10) @ [char_of (48 + n mod 10)])"
  by pat_completeness auto
termination
  by (relation "measure nat") auto

declare str_digits.simps [simp del]

definition str_int :: "int \<Rightarrow> string" where
  "str_int i = (if i < 0 then CHR ''-'' # str_digits (- i) else str_digits i)"

text \<open>
  \<^verbatim>\<open>_file_signature(path, points)\<close>: \<^verbatim>\<open>os.stat\<close> is a parameter giving
  \<^verbatim>\<open>(st_size, st_mtime_ns)\<close>, or \<open>None\<close> where it raises; then so does the signature.
\<close>

definition file_signature :: "(string \<Rightarrow> (int \<times> int) option) \<Rightarrow> string \<Rightarrow> int option \<Rightarrow> string option" where
  "file_signature stat p pts =
     (case stat p of
        None \<Rightarrow> None
      | Some (st_size, st_mtime_ns) \<Rightarrow>
          let signature = str_int st_size @ '':'' @ str_int st_mtime_ns
          in Some (case pts of None \<Rightarrow> signature | Some n \<Rightarrow> signature @ ''|p'' @ str_int n))"

text \<open>The text of \<^verbatim>\<open>wave_load_label\<close>; the percentage of
  \<^verbatim>\<open>f"Waveform laden: {pct}%"\<close> is kept as the two counts it is computed from.\<close>

datatype label = Label string | Label_percent int int

text \<open>
  The fields of the player that the waveform controller reads and writes. A \<^verbatim>\<open>dict\<close>
  whose order matters (\<open>wave_cache\<close>) is an association list in insertion order; \<open>plot\<close> is
  what the plot shows: \<open>None\<close> after \<^verbatim>\<open>_clear_waveform_plot\<close>, otherwise the aligned time
  axis and amplitudes handed to the drawing code; \<open>started\<close> lists every job whose
  \<^verbatim>\<open>start()\<close> was called, \<open>cancel_calls\<close> every job whose \<^verbatim>\<open>cancel()\<close> was called.
\<close>

record player =
  tracks :: "string list"
  current_index :: "int option"
  waveform_points :: int
  os_stat :: "string \<Rightarrow> (int \<times> int) option"
  wave_cache :: "(string \<times> (string \<times> rat list \<times> array2d)) list"
  wave_partial :: "string \<rightharpoonup> (string \<times> rat list \<times> array2d \<times> int \<times> int)"
  active_wave_thread :: "job option"
  active_wave_request_id :: int
  active_wave_path :: string
  active_wave_signature :: string
  active_wave_failed :: bool
  preload_thread :: "job option"
  preload_request_id :: int
  preload_path :: string
  preload_signature :: string
  preload_queue :: "string list"
  preload_set :: "string set"
  plot :: "(rat list \<times> array2d) option"
  wave_load_label :: label
  started :: "job list"
  cancel_calls :: "job list"

subsection \<open>The result cache\<close>

text \<open>\<^verbatim>\<open>d[k] = v\<close> on an insertion-ordered dict: an existing key keeps its place, a new
  key goes last. \<^verbatim>\<open>d.pop(k, None)\<close> removes the key.\<close>

fun dict_set :: "('k \<times> 'v) list \<Rightarrow> 'k \<Rightarrow> 'v \<Rightarrow> ('k \<times> 'v) list" where
  "dict_set [] k v = [(k, v)]"
| "dict_set ((k', v') # kvs) k v = (if k' = k then (k, v) # kvs else (k', v') # dict_set kvs k v)"

definition dict_pop :: "('k \<times> 'v) list \<Rightarrow> 'k \<Rightarrow> ('k \<times> 'v) list" where
  "dict_pop kvs k = filter (\<lambda>kv. fst kv \<noteq> k) kvs"

definition cache_get ::
  "(string \<times> (string \<times> rat list \<times> array2d)) list \<Rightarrow> string \<Rightarrow> string
     \<Rightarrow> (string \<times> rat list \<times> array2d) option" where
  "cache_get cache p signature =
     (case map_of cache p of
        None \<Rightarrow> None
      | Some cached \<Rightarrow> if fst cached = signature then Some cached else None)"

definition cache_store ::
  "(string \<times> (string \<times> rat list \<times> array2d)) list \<Rightarrow> string \<Rightarrow> string \<Rightarrow> rat list \<Rightarrow> array2d
     \<Rightarrow> (string \<times> (string \<times> rat list \<times> array2d)) list" where
  "cache_store cache p signature x amplitudes =
     (let cache' = dict_set cache p (signature, x, amplitudes)
      in if length cache' > 40
         then (case cache' of [] \<Rightarrow> cache' | (oldest, _) # _ \<Rightarrow> dict_pop cache' oldest)
         else cache')"

subsection \<open>Rendering\<close>

definition clear_waveform_plot :: "player \<Rightarrow> player" where
  "clear_waveform_plot s = s\<lparr>plot := None\<rparr>"

text \<open>\<^verbatim>\<open>_set_waveform_from_channels\<close>: the arrays are aligned and, unless empty, handed to
  the drawing code of the current view mode.\<close>

definition set_waveform_from_channels :: "player \<Rightarrow> rat list \<Rightarrow> array2d \<Rightarrow> player" where
  "set_waveform_from_channels s x amplitudes =
     (case align_wave_channels x amplitudes of
        (x_arr, amp_arr) \<Rightarrow>
          if length x_arr = 0 \<or> size2d amp_arr = 0 then clear_waveform_plot s
          else s\<lparr>plot := Some (x_arr, amp_arr)\<rparr>)"

definition current_track_path :: "player \<Rightarrow> string" where
  "current_track_path s =
     (case current_index s of
        None \<Rightarrow> ''''
      | Some i \<Rightarrow> if i < 0 \<or> i \<ge> int (length (tracks s)) then '''' else tracks s ! nat i)"

text \<open>\<^verbatim>\<open>_render_partial_for_path\<close>; the boolean is its return value.\<close>

definition render_partial_for_path :: "player \<Rightarrow> string \<Rightarrow> string \<Rightarrow> player \<times> bool" where
  "render_partial_for_path s p signature =
     (case wave_partial s p of
        None \<Rightarrow> (s, False)
      | Some (sg, px, pamp, pfilled, ptotal) \<Rightarrow>
          if sg \<noteq> signature then (s, False)
          else (case align_wave_channels px pamp of
            (x, amp) \<Rightarrow>
              let total_bins = (if ptotal \<le> 0 then max 1 (int (nrows amp)) else ptotal);
                  filled = max 0 (min pfilled total_bins);
                  upto = max 0 (min filled (min (int (length x)) (int (nrows amp))));
                  s1 = (if upto \<le> 0 then clear_waveform_plot s
                        else set_waveform_from_channels s (take (nat upto) x)
                               (amp\<lparr>cells := take (nat upto) (cells amp)\<rparr>))
              in (s1\<lparr>wave_load_label := Label_percent filled total_bins\<rparr>, True)))"

subsection \<open>Starting and stopping jobs\<close>

definition start_active_wave_worker :: "player \<Rightarrow> string \<Rightarrow> string \<Rightarrow> bool \<Rightarrow> int \<Rightarrow> player" where
  "start_active_wave_worker s p signature emit pts =
     (let rid = active_wave_request_id s + 1;
          thread = \<lparr>request_id = rid, path = p, points = pts, emit_progress = emit,
                     progress_interval = 12 / 100\<rparr>
      in s\<lparr>active_wave_request_id := rid, active_wave_path := p,
            active_wave_signature := signature, active_wave_failed := False,
            active_wave_thread := Some thread, started := started s @ [thread]\<rparr>)"

definition start_preload_wave_worker :: "player \<Rightarrow> string \<Rightarrow> string \<Rightarrow> bool \<Rightarrow> int \<Rightarrow> player" where
  "start_preload_wave_worker s p signature emit pts =
     (let rid = preload_request_id s + 1;
          thread = \<lparr>request_id = rid, path = p, points = pts, emit_progress = emit,
                     progress_interval = 16 / 100\<rparr>
      in s\<lparr>preload_request_id := rid, preload_path := p, preload_signature := signature,
            preload_thread := Some thread, started := started s @ [thread]\<rparr>)"

text \<open>\<^verbatim>\<open>_stop_active_wave_worker\<close>: the job is asked to stop and waited for, for a bounded
  time; the request id is left as it is.\<close>

definition stop_active_wave_worker :: "player \<Rightarrow> player" where
  "stop_active_wave_worker s =
     s\<lparr>cancel_calls := cancel_calls s @ (case active_wave_thread s of None \<Rightarrow> [] | Some t \<Rightarrow> [t]),
       active_wave_thread := None, active_wave_path := '''', active_wave_signature := '''',
       active_wave_failed := False\<rparr>"

definition remove_from_preload_queue :: "player \<Rightarrow> string \<Rightarrow> player" where
  "remove_from_preload_queue s p =
     (if p \<in> preload_set s
      then s\<lparr>preload_set := preload_set s - {p}, preload_queue := filter (\<lambda>q. q \<noteq> p) (preload_queue s)\<rparr>
      else s)"

text \<open>\<^verbatim>\<open>_start_next_preload\<close>: the loop pops the queue until it finds a path to decode.\<close>

fun pop_preload_queue :: "player \<Rightarrow> string list \<Rightarrow> player" where
  "pop_preload_queue s [] = s\<lparr>preload_queue := []\<rparr>"
| "pop_preload_queue s (p # queue) =
     (let s1 = s\<lparr>preload_queue := queue, preload_set := preload_set s - {p}\<rparr>
      in if p = active_wave_path s1 then pop_preload_queue s1 queue
         else (case file_signature (os_stat s1) p (Some (waveform_points s1)) of
           None \<Rightarrow> pop_preload_queue s1 queue
         | Some signature \<Rightarrow>
             if cache_get (wave_cache s1) p signature \<noteq> None then pop_preload_queue s1 queue
             else start_preload_wave_worker s1 p signature (p = current_track_path s1)
                    (waveform_points s1)))"

definition start_next_preload :: "player \<Rightarrow> player" where
  "start_next_preload s =
     (if preload_thread s \<noteq> None then s else pop_preload_queue s (preload_queue s))"

subsection \<open>Loading the waveform of a track, and the callbacks of the active job\<close>

definition load_waveform_for_track :: "player \<Rightarrow> string \<Rightarrow> player" where
  "load_waveform_for_track s0 p =
     (let signature = (case file_signature (os_stat s0) p (Some (waveform_points s0)) of
                         None \<Rightarrow> '''' | Some sg \<Rightarrow> sg);
          s = remove_from_preload_queue s0 p
      in case cache_get (wave_cache s) p signature of
           Some cached \<Rightarrow>
             start_next_preload
               ((set_waveform_from_channels s (fst (snd cached)) (snd (snd cached)))
                  \<lparr>wave_load_label := Label ''''\<rparr>)
         | None \<Rightarrow>
             if active_wave_path s = p \<and> active_wave_thread s \<noteq> None
             then (case render_partial_for_path s p signature of
                     (s1, True) \<Rightarrow> s1
                   | (s1, False) \<Rightarrow> (clear_waveform_plot s1)\<lparr>wave_load_label := Label ''Waveform laden...''\<rparr>)
             else if preload_path s = p \<and> preload_thread s \<noteq> None
             then (case render_partial_for_path
                          (s\<lparr>preload_thread := map_option (\<lambda>t. t\<lparr>emit_progress := True\<rparr>) (preload_thread s)\<rparr>)
                          p signature of
                     (s1, True) \<Rightarrow> s1
                   | (s1, False) \<Rightarrow> (clear_waveform_plot s1)\<lparr>wave_load_label := Label ''Waveform laden...''\<rparr>)
             else
               let s2 = (clear_waveform_plot s)\<lparr>wave_load_label := Label ''Waveform laden: 0%''\<rparr>
               in if active_wave_thread s2 = None
                  then start_active_wave_worker s2 p signature True (waveform_points s2)
                  else if preload_thread s2 = None
                  then start_preload_wave_worker s2 p signature True (waveform_points s2)
                  else (if p \<notin> preload_set s2
                        then s2\<lparr>preload_queue := p # preload_queue s2, preload_set := insert p (preload_set s2)\<rparr>
                        else s2)\<lparr>wave_load_label := Label ''Waveform in wachtrij...''\<rparr>)"

text \<open>\<^verbatim>\<open>_on_active_wave_progress\<close>; \<open>suppressed\<close> says whether playback is running inside
  the interval in which rendering is held back.\<close>

definition on_active_wave_progress ::
  "player \<Rightarrow> bool \<Rightarrow> int \<Rightarrow> string \<Rightarrow> rat list \<Rightarrow> array2d \<Rightarrow> int \<Rightarrow> int \<Rightarrow> player" where
  "on_active_wave_progress s suppressed rid p x_obj amp_obj filled total_in =
     (if rid \<noteq> active_wave_request_id s \<or> p \<noteq> active_wave_path s then s
      else (case align_wave_channels x_obj amp_obj of
        (x, amp) \<Rightarrow>
          let total_bins = (if total_in \<le> 0 then max 1 (int (nrows amp)) else total_in);
              filled_bins = max 0 (min filled total_bins);
              s1 = s\<lparr>wave_partial := (wave_partial s)(p \<mapsto> (active_wave_signature s, x, amp, filled_bins, total_bins))\<rparr>
          in if current_track_path s1 = p
             then (if suppressed then s1
                   else fst (render_partial_for_path s1 p (active_wave_signature s1)))
             else s1))"

text \<open>\<^verbatim>\<open>_on_active_wave_finished\<close>, the slot of \<^verbatim>\<open>resultReady\<close>.\<close>

definition on_active_wave_finished :: "player \<Rightarrow> int \<Rightarrow> string \<Rightarrow> rat list \<Rightarrow> array2d \<Rightarrow> player" where
  "on_active_wave_finished s rid p x_obj amp_obj =
     (if rid \<noteq> active_wave_request_id s \<or> p \<noteq> active_wave_path s then s
      else (case align_wave_channels x_obj amp_obj of
        (x, amplitudes) \<Rightarrow>
          let s1 = s\<lparr>active_wave_failed := False,
                     wave_partial := (wave_partial s)(p := None),
                     wave_cache := cache_store (wave_cache s) p (active_wave_signature s) x amplitudes\<rparr>
          in if current_track_path s1 = p
             then (set_waveform_from_channels s1 x amplitudes)\<lparr>wave_load_label := Label ''''\<rparr>
             else s1))"

section \<open>Channel routing\<close>

subsection \<open>Boolean routing matrices\<close>

text \<open>\<^verbatim>\<open>len(ROUTING_CHANNEL_LABELS)\<close> and \<^verbatim>\<open>ROUTING_TARGET_CHANNELS.get(mode, 0)\<close>.\<close>

definition routing_size :: nat where
  "routing_size = 12"

definition routing_target_channels_of_mode :: "string \<Rightarrow> int" where
  "routing_target_channels_of_mode mode =
     (if mode = ''auto'' then 0
      else if mode = ''stereo'' then 2
      else if mode = ''surround_5_1'' then 6
      else if mode = ''surround_7_1'' then 8
      else if mode = ''immersive_7_1_4'' then 12
      else 0)"

text \<open>A boolean matrix is a list of rows of ints, as the settings hold it.\<close>

definition default_routing_matrix :: "int list list" where
  "default_routing_matrix =
     map (\<lambda>r. map (\<lambda>c. if c = r then 1 else 0) [0..<routing_size]) [0..<routing_size]"

text \<open>\<^verbatim>\<open>_clone_routing_matrix\<close>: a 12 by 12 copy, cells beyond the given matrix 0, every
  cell normalised to 0 or 1.\<close>

definition clone_routing_matrix :: "int list list \<Rightarrow> int list list" where
  "clone_routing_matrix matrix =
     map (\<lambda>r. map (\<lambda>c. if r < min routing_size (length matrix)
                           \<and> c < min routing_size (length (matrix ! r))
                           \<and> matrix ! r ! c \<noteq> 0
                        then 1 else 0) [0..<routing_size]) [0..<routing_size]"

text \<open>\<^verbatim>\<open>_serialize_routing_matrix\<close>: rows of \<open>0\<close> and \<open>1\<close> joined by \<open>|\<close>.\<close>

fun join_rows :: "string list \<Rightarrow> string" where
  "join_rows [] = []"
| "join_rows [r] = r"
| "join_rows (r # rs) = r @ ''|'' @ join_rows rs"

definition serialize_routing_matrix :: "int list list \<Rightarrow> string" where
  "serialize_routing_matrix matrix =
     join_rows (map (map (\<lambda>cell. if cell \<noteq> 0 then CHR ''1'' else CHR ''0''))
                  (clone_routing_matrix matrix))"

text \<open>\<^verbatim>\<open>_routing_matrix_preset\<close>: the stereo fold-down for target 2, otherwise source
  \<open>idx\<close> to output \<open>min idx (target - 1)\<close>.\<close>

definition routing_matrix_preset :: "int \<Rightarrow> int list list" where
  "routing_matrix_preset target_channels =
     (if target_channels \<le> 0 then default_routing_matrix
      else let target = nat (max 1 (min (int routing_size) target_channels))
           in if target = 2
              then map (\<lambda>src. map (\<lambda>out.
                          if (out = 0 \<and> src \<in> {0, 2, 4, 6, 8, 10})
                             \<or> (out = 1 \<and> src \<in> {1, 2, 5, 7, 9, 11})
                             \<or> (src = 3 \<and> (out = 0 \<or> out = 1))
                          then 1 else 0) [0..<routing_size]) [0..<routing_size]
              else map (\<lambda>idx. map (\<lambda>out. if out = min idx (target - 1) then 1 else 0)
                          [0..<routing_size]) [0..<routing_size])"

subsection \<open>The runtime matrix\<close>

text \<open>The routing settings of the player.\<close>

record routing_config =
  audio_matrix_enabled :: bool
  audio_routing_mode :: string
  audio_routing_matrix :: "int list list"

definition routing_requires_processing :: "routing_config \<Rightarrow> bool" where
  "routing_requires_processing cfg = (audio_matrix_enabled cfg \<or> audio_routing_mode cfg \<noteq> ''auto'')"

text \<open>The first loop of \<^verbatim>\<open>_build_runtime_routing_matrix\<close>, for one source row: unity
  gain at every checked cell of the base row, and outside matrix mode a fallback cell for
  a row without any.\<close>

definition base_checked :: "int list list \<Rightarrow> nat \<Rightarrow> nat \<Rightarrow> bool" where
  "base_checked base src_base out_idx =
     (let base_rows = length base;
          base_cols = (case base of [] \<Rightarrow> 0 | r # _ \<Rightarrow> length r)
      in src_base < base_rows \<and> out_idx < base_cols \<and> base ! src_base ! out_idx \<noteq> 0)"

definition raw_row :: "int list list \<Rightarrow> bool \<Rightarrow> nat \<Rightarrow> nat \<Rightarrow> rat list" where
  "raw_row base matrix_mode output_count src_idx =
     (let src_base = min src_idx (length base - 1);
          row = map (\<lambda>out_idx. if base_checked base src_base out_idx then 1 else 0) [0..<output_count];
          mapped = list_ex (base_checked base src_base) [0..<output_count]
      in if \<not> mapped \<and> \<not> matrix_mode then row[min src_idx (output_count - 1) := 1] else row)"

text \<open>
  \<^verbatim>\<open>np.sum\<close> of a \<^verbatim>\<open>float32\<close> vector: the sum is accumulated in \<^verbatim>\<open>float32\<close>,
  every addition rounded. The additions are taken from left to right, which is NumPy's
  order for fewer than eight elements; for longer vectors NumPy adds in blocks. The order
  is immaterial where every partial sum is representable, as it is for the gains summed
  by the two loops below (\<open>np_sum_exact\<close>).
\<close>

definition np_sum :: "rat list \<Rightarrow> rat" where
  "np_sum xs = foldl (\<lambda>acc v. float32 (acc + v)) 0 xs"

text \<open>
  The two normalisation loops: each row, then each column in turn, is divided in place by
  the \<^verbatim>\<open>float32\<close> sum of its absolute values when that sum exceeds 1. The matrix is a
  \<^verbatim>\<open>float32\<close> array, so every quotient is rounded to \<^verbatim>\<open>float32\<close>; the divisor is the
  sum itself, which \<^verbatim>\<open>float(...)\<close> converts without a change of value.
\<close>

definition normalize_row :: "rat list \<Rightarrow> rat list" where
  "normalize_row row =
     (let row_sum = np_sum (map abs row)
      in if row_sum > 1 then map (\<lambda>v. float32 (v / row_sum)) row else row)"

definition col_abs_sum :: "rat list list \<Rightarrow> nat \<Rightarrow> rat" where
  "col_abs_sum m out_idx = np_sum (map (\<lambda>row. \<bar>row ! out_idx\<bar>) m)"

definition normalize_column :: "rat list list \<Rightarrow> nat \<Rightarrow> rat list list" where
  "normalize_column m out_idx =
     (let col_sum = col_abs_sum m out_idx
      in if col_sum > 1 then map (\<lambda>row. row[out_idx := float32 (row ! out_idx / col_sum)]) m else m)"

definition normalize_columns :: "rat list list \<Rightarrow> nat \<Rightarrow> rat list list" where
  "normalize_columns m output_count = fold (\<lambda>out_idx m'. normalize_column m' out_idx) [0..<output_count] m"

text \<open>\<^verbatim>\<open>_build_runtime_routing_matrix\<close>. The result is the \<^verbatim>\<open>float32\<close> array as the
  list of its rows, each gain the rational that the stored \<^verbatim>\<open>float32\<close> denotes.\<close>

definition build_runtime_routing_matrix :: "routing_config \<Rightarrow> int \<Rightarrow> int \<Rightarrow> rat list list" where
  "build_runtime_routing_matrix cfg source_channels output_channels =
     (let source_count = nat (max 1 source_channels);
          output_count = nat (max 1 output_channels);
          base = (if audio_matrix_enabled cfg then clone_routing_matrix (audio_routing_matrix cfg)
                  else if audio_routing_mode cfg = ''auto'' then default_routing_matrix
                  else routing_matrix_preset (routing_target_channels_of_mode (audio_routing_mode cfg)));
          matrix = map (raw_row base (audio_matrix_enabled cfg) output_count) [0..<source_count]
      in if \<not> audio_matrix_enabled cfg
         then normalize_columns (map normalize_row matrix) output_count
         else matrix)"

text \<open>\<^verbatim>\<open>_is_identity_routing\<close>: a non-empty square matrix equal to the identity.\<close>

definition is_identity_routing :: "rat list list \<Rightarrow> bool" where
  "is_identity_routing m =
     (m \<noteq> [] \<and> list_all (\<lambda>row. length row = length m) m
      \<and> m = map (\<lambda>r. map (\<lambda>c. if c = r then 1 else 0) [0..<length m]) [0..<length m])"

subsection \<open>The routed-file cache\<close>

text \<open>
  The part of the player and of the file system that routing touches:
  \<open>routed_audio_cache\<close> is the insertion-ordered dict from cache key to routed path,
  \<open>files\<close> the set of paths at which a file exists (\<^verbatim>\<open>os.path.isfile\<close>),
  \<open>current_source\<close> the local file loaded into the media player
  (\<^verbatim>\<open>self.player.source().toLocalFile()\<close>, empty when there is none).
\<close>

record routing_state =
  routed_audio_cache :: "(string \<times> string) list"
  session_routed_files :: "string set"
  files :: "string set"
  current_source :: string

text \<open>
  What the operating system and the libraries contribute: \<^verbatim>\<open>os.path.abspath\<close>; whether
  removing a given file raises; the header probe \<^verbatim>\<open>sf.info\<close> (\<open>None\<close> where it raises);
  \<^verbatim>\<open>os.stat\<close>; the output channel count that \<^verbatim>\<open>_effective_output_channels\<close> settles on
  for a routing configuration and a source channel count, after consulting the audio
  devices; the hex digest
  of SHA-1 and the bytes of a \<^verbatim>\<open>float32\<close> matrix; the directory of routed files; and
  how the rendering of a routed file ends.
\<close>

datatype render_outcome = Rendered | Render_error bool

record routing_env =
  abspath :: "string \<Rightarrow> string"
  remove_fails :: "string \<Rightarrow> bool"
  probe :: "string \<Rightarrow> sf_info option"
  stat_of :: "string \<Rightarrow> (int \<times> int) option"
  effective_output_channels :: "routing_config \<Rightarrow> int \<Rightarrow> int"
  sha1_hex :: "string \<Rightarrow> string"
  tobytes :: "rat list list \<Rightarrow> string"
  routed_audio_dir :: string
  render :: "string \<Rightarrow> string \<Rightarrow> render_outcome"

text \<open>The test of the eviction loop: does this path denote the file now loaded?\<close>

definition is_current_source :: "routing_env \<Rightarrow> routing_state \<Rightarrow> string \<Rightarrow> bool" where
  "is_current_source env st p =
     (let current_source_abs = (if current_source st \<noteq> [] then abspath env (current_source st) else [])
      in current_source_abs \<noteq> [] \<and> abspath env p = current_source_abs)"

text \<open>The inner \<^verbatim>\<open>for\<close> loop of \<^verbatim>\<open>_trim_routed_audio_cache\<close>: the first entry, in
  insertion order, whose file is not the one loaded.\<close>

fun first_evictable :: "routing_env \<Rightarrow> routing_state \<Rightarrow> (string \<times> string) list \<Rightarrow> (string \<times> string) option" where
  "first_evictable env st [] = None"
| "first_evictable env st ((k, p) # rest) =
     (if is_current_source env st p then first_evictable env st rest else Some (k, p))"

text \<open>One round of the \<^verbatim>\<open>while\<close> loop, for the entry chosen: the entry is popped, its
  file removed if it exists (a failure to remove it is swallowed), and its path dropped
  from the session's set.\<close>

definition evict :: "routing_env \<Rightarrow> routing_state \<Rightarrow> string \<Rightarrow> string \<Rightarrow> routing_state" where
  "evict env st delete_key delete_path =
     st\<lparr>routed_audio_cache := dict_pop (routed_audio_cache st) delete_key,
        files := (if delete_path \<noteq> [] \<and> delete_path \<in> files st \<and> \<not> remove_fails env delete_path
                  then files st - {delete_path} else files st),
        session_routed_files := session_routed_files st - {delete_path}\<rparr>"

lemma first_evictable_in:
  "first_evictable env st c = Some (k, p) \<Longrightarrow> (k, p) \<in> set c"
  by (induction c) (auto split: if_splits)

lemma dict_pop_shorter: "(k, p) \<in> set c \<Longrightarrow> length (dict_pop c k) < length c"
  unfolding dict_pop_def by (induction c) (auto simp: less_Suc_eq_le)

function trim_loop :: "routing_env \<Rightarrow> nat \<Rightarrow> routing_state \<Rightarrow> routing_state" where
  "trim_loop env max_entries st =
     (if length (routed_audio_cache st) > max_entries
      then (case first_evictable env st (routed_audio_cache st) of
              None \<Rightarrow> st
            | Some (delete_key, delete_path) \<Rightarrow>
                trim_loop env max_entries (evict env st delete_key delete_path))
      else st)"
  by pat_completeness auto
termination
  by (relation "measure (\<lambda>(env, max_entries, st). length (routed_audio_cache st))")
     (auto simp: evict_def dict_pop_shorter dest: first_evictable_in)

declare trim_loop.simps [simp del]

definition trim_routed_audio_cache :: "routing_env \<Rightarrow> int \<Rightarrow> routing_state \<Rightarrow> routing_state" where
  "trim_routed_audio_cache env max_entries st =
     trim_loop env (nat (if max_entries < 1 then 1 else max_entries)) st"

subsection \<open>Resolving the playback source\<close>

text \<open>The three ingredients of the cache key and the key itself, as
  \<^verbatim>\<open>_resolve_playback_source\<close> builds them.\<close>

definition route_token :: "routing_config \<Rightarrow> int \<Rightarrow> int \<Rightarrow> string" where
  "route_token cfg source_channels output_channels =
     ''v4|'' @ audio_routing_mode cfg @ ''|m'' @ (if audio_matrix_enabled cfg then ''1'' else ''0'')
       @ ''|'' @ serialize_routing_matrix (audio_routing_matrix cfg)
       @ ''|sc'' @ str_int source_channels @ ''|oc'' @ str_int output_channels"

definition matrix_digest :: "routing_env \<Rightarrow> rat list list \<Rightarrow> string" where
  "matrix_digest env runtime_matrix = take 12 (sha1_hex env (tobytes env runtime_matrix))"

definition key_material :: "routing_env \<Rightarrow> string \<Rightarrow> routing_config \<Rightarrow> int \<Rightarrow> int \<Rightarrow> string" where
  "key_material env file_sig cfg source_channels output_channels =
     file_sig @ ''|'' @ route_token cfg source_channels output_channels @ ''|''
       @ matrix_digest env (build_runtime_routing_matrix cfg source_channels output_channels)"

definition cache_key :: "routing_env \<Rightarrow> string \<Rightarrow> routing_config \<Rightarrow> int \<Rightarrow> int \<Rightarrow> string" where
  "cache_key env file_sig cfg source_channels output_channels =
     sha1_hex env (key_material env file_sig cfg source_channels output_channels)"

definition routed_path_of :: "routing_env \<Rightarrow> string \<Rightarrow> string" where
  "routed_path_of env key = routed_audio_dir env @ ''/'' @ key @ ''.wav''"

definition tmp_path_of :: "routing_env \<Rightarrow> string \<Rightarrow> string" where
  "tmp_path_of env key = routed_audio_dir env @ ''/'' @ key @ ''.tmp.wav''"

text \<open>Storing a routed file: the three statements that follow a successful lookup on disk
  or a successful rendering.\<close>

definition remember_routed :: "routing_env \<Rightarrow> routing_state \<Rightarrow> string \<Rightarrow> string \<Rightarrow> routing_state" where
  "remember_routed env st key routed =
     trim_routed_audio_cache env 16
       (st\<lparr>routed_audio_cache := dict_set (routed_audio_cache st) key routed,
           session_routed_files := insert routed (session_routed_files st)\<rparr>)"

text \<open>
  The last part of \<^verbatim>\<open>_resolve_playback_source\<close>, from \<^verbatim>\<open>tmp_path = ...\<close> on: the
  file is rendered and stored. The rendering itself, the \<^verbatim>\<open>with\<close> block that streams
  the source through the matrix into the temporary file, enters by its outcome:
  \<open>Rendered\<close> when the block completes and \<^verbatim>\<open>os.replace\<close> has moved the temporary
  file into place, \<open>Render_error created\<close> when the block or the move raises, with
  \<open>created\<close> telling whether the temporary file exists by then. In the handler the
  temporary file is unlinked if it exists, and a failure to unlink it is swallowed.
\<close>

definition render_routed :: "routing_env \<Rightarrow> routing_state \<Rightarrow> string \<Rightarrow> string \<Rightarrow> string \<times> routing_state" where
  "render_routed env st source_path key =
     (let routed = routed_path_of env key;
          tmp = tmp_path_of env key
      in case render env source_path tmp of
           Rendered \<Rightarrow>
             (routed, remember_routed env (st\<lparr>files := insert routed (files st - {tmp})\<rparr>) key routed)
         | Render_error created \<Rightarrow>
             let files1 = (if created then insert tmp (files st) else files st);
                 files2 = (if tmp \<in> files1 \<and> \<not> remove_fails env tmp then files1 - {tmp} else files1)
             in (source_path, st\<lparr>files := files2\<rparr>))"

text \<open>\<^verbatim>\<open>_resolve_playback_source\<close>.\<close>

definition resolve_playback_source ::
  "routing_env \<Rightarrow> routing_config \<Rightarrow> routing_state \<Rightarrow> string \<Rightarrow> string \<times> routing_state" where
  "resolve_playback_source env cfg st source_path =
     (if \<not> routing_requires_processing cfg then (source_path, st)
      else case probe env source_path of
        None \<Rightarrow> (source_path, st)
      | Some i \<Rightarrow>
          let source_channels = max 1 (channels i);
              output_channels = effective_output_channels env cfg source_channels;
              runtime_matrix = build_runtime_routing_matrix cfg source_channels output_channels
          in if \<not> audio_matrix_enabled cfg \<and> audio_routing_mode cfg = ''auto''
                \<and> output_channels = source_channels \<and> is_identity_routing runtime_matrix
             then (source_path, st)
             else
               let file_sig = (case file_signature (stat_of env) source_path None of
                                 None \<Rightarrow> source_path | Some sg \<Rightarrow> sg);
                   key = cache_key env file_sig cfg source_channels output_channels;
                   cached_path = (case map_of (routed_audio_cache st) key of None \<Rightarrow> [] | Some p \<Rightarrow> p)
               in if cached_path \<noteq> [] \<and> cached_path \<in> files st then (cached_path, st)
                  else if routed_path_of env key \<in> files st
                  then (routed_path_of env key, remember_routed env st key (routed_path_of env key))
                  else render_routed env st source_path key)"

section \<open>Properties of the rounding\<close>

lemma round_half_even_of_int [simp]: "round_half_even (of_int k) = k"
  by (simp add: round_half_even_def)

lemma round_half_even_near:
  "rat_of_int (round_half_even x) \<le> x + 1 / 2" "x \<le> rat_of_int (round_half_even x) + 1 / 2"
proof -
  define d where "d = x - rat_of_int \<lfloor>x\<rfloor>"
  have d: "0 \<le> d" "d < 1" unfolding d_def by linarith+
  have x: "x = rat_of_int \<lfloor>x\<rfloor> + d" by (simp add: d_def)
  have r: "round_half_even x = (if d < 1 / 2 then \<lfloor>x\<rfloor> else if 1 / 2 < d then \<lfloor>x\<rfloor> + 1
                               else if even \<lfloor>x\<rfloor> then \<lfloor>x\<rfloor> else \<lfloor>x\<rfloor> + 1)"
    by (simp add: round_half_even_def Let_def d_def)
  show "rat_of_int (round_half_even x) \<le> x + 1 / 2"
    unfolding r using d by (subst (2) x) (simp split: if_splits)
  show "x \<le> rat_of_int (round_half_even x) + 1 / 2"
    unfolding r using d by (subst (1) x) (simp split: if_splits)
qed

lemma round_half_even_ge: "rat_of_int k \<le> x \<Longrightarrow> k \<le> round_half_even x"
proof -
  assume "rat_of_int k \<le> x"
  then have "k \<le> \<lfloor>x\<rfloor>" by (simp add: le_floor_iff)
  then show ?thesis by (auto simp: round_half_even_def Let_def)
qed

lemma round_half_even_le: "x \<le> rat_of_int k \<Longrightarrow> round_half_even x \<le> k"
proof -
  assume x: "x \<le> rat_of_int k"
  show ?thesis
  proof (cases "x = rat_of_int k")
    case True
    then show ?thesis by simp
  next
    case False
    then have "x < rat_of_int k" using x by simp
    then have "\<lfloor>x\<rfloor> < k" by (simp add: floor_less_iff)
    then show ?thesis by (auto simp: round_half_even_def Let_def)
  qed
qed

lemma round_half_even_gt: "rat_of_int k + 1 / 2 < x \<Longrightarrow> k < round_half_even x"
proof -
  assume "rat_of_int k + 1 / 2 < x"
  then have "rat_of_int k < rat_of_int (round_half_even x)"
    using round_half_even_near(2) [of x] by linarith
  then show ?thesis by simp
qed

lemma ilog2_le:
  assumes "0 < q"
  shows "2 powi (ilog2 q) \<le> q"
proof -
  obtain a b where ab: "quotient_of q = (a, b)" by (cases "quotient_of q")
  have b: "0 < b" using quotient_of_denom_pos [OF ab] .
  have q: "q = rat_of_int a / rat_of_int b" using quotient_of_div [OF ab] .
  have a: "0 < a" using assms b unfolding q by (simp add: zero_less_divide_iff)
  define e where "e = bitlen a - bitlen b"
  show ?thesis
  proof (cases "2 powi e \<le> q")
    case True
    then show ?thesis using assms ab by (simp add: ilog2_def e_def)
  next
    case False
    then have i: "ilog2 q = e - 1" using assms ab by (simp add: ilog2_def e_def)
    have la: "1 \<le> bitlen a" "1 \<le> bitlen b" using a b by (simp_all add: bitlen_alt_def)
    have "(2::int) ^ nat (bitlen a - 1) \<le> a" using bitlen_bounds [OF a] by simp
    then have "rat_of_int (2 ^ nat (bitlen a - 1)) \<le> rat_of_int a" by (simp only: of_int_le_iff)
    then have 1: "(2::rat) powi (bitlen a - 1) \<le> rat_of_int a"
      using la by (simp add: power_int_def)
    have "b < 2 ^ nat (bitlen b)" using bitlen_bounds [OF b] by simp
    then have "rat_of_int b < rat_of_int (2 ^ nat (bitlen b))" by (simp only: of_int_less_iff)
    then have 2: "rat_of_int b \<le> 2 powi (bitlen b)" using la by (simp add: power_int_def)
    have "(2::rat) powi (e - 1) * rat_of_int b \<le> 2 powi (e - 1) * 2 powi (bitlen b)"
      using 2 by (simp add: mult_left_mono)
    also have "\<dots> = 2 powi (bitlen a - 1)"
      by (simp add: power_int_add [symmetric] e_def)
    finally have "(2::rat) powi (e - 1) * rat_of_int b \<le> rat_of_int a" using 1 by simp
    then have "(2::rat) powi (e - 1) \<le> q" unfolding q using b by (simp add: pos_le_divide_eq)
    then show ?thesis by (simp add: i)
  qed
qed

lemma ilog2_gt:
  assumes "0 < q"
  shows "q < 2 powi (ilog2 q + 1)"
proof -
  obtain a b where ab: "quotient_of q = (a, b)" by (cases "quotient_of q")
  have b: "0 < b" using quotient_of_denom_pos [OF ab] .
  have q: "q = rat_of_int a / rat_of_int b" using quotient_of_div [OF ab] .
  have a: "0 < a" using assms b unfolding q by (simp add: zero_less_divide_iff)
  define e where "e = bitlen a - bitlen b"
  show ?thesis
  proof (cases "2 powi e \<le> q")
    case False
    then show ?thesis using assms ab by (simp add: ilog2_def e_def)
  next
    case True
    then have i: "ilog2 q = e" using assms ab by (simp add: ilog2_def e_def)
    have la: "1 \<le> bitlen a" "1 \<le> bitlen b" using a b by (simp_all add: bitlen_alt_def)
    have "a < 2 ^ nat (bitlen a)" using bitlen_bounds [OF a] by simp
    then have "rat_of_int a < rat_of_int (2 ^ nat (bitlen a))" by (simp only: of_int_less_iff)
    then have 1: "rat_of_int a < 2 powi (bitlen a)" using la by (simp add: power_int_def)
    have "(2::int) ^ nat (bitlen b - 1) \<le> b" using bitlen_bounds [OF b] by simp
    then have "rat_of_int (2 ^ nat (bitlen b - 1)) \<le> rat_of_int b" by (simp only: of_int_le_iff)
    then have 2: "(2::rat) powi (bitlen b - 1) \<le> rat_of_int b" using la by (simp add: power_int_def)
    have "(2::rat) powi (bitlen a) = 2 powi (e + 1) * 2 powi (bitlen b - 1)"
      by (simp add: power_int_add [symmetric] e_def)
    also have "\<dots> \<le> 2 powi (e + 1) * rat_of_int b" using 2 by (simp add: mult_left_mono)
    finally have "rat_of_int a < 2 powi (e + 1) * rat_of_int b" using 1 by simp
    then have "q < 2 powi (e + 1)" unfolding q using b by (simp add: pos_divide_less_eq)
    then show ?thesis by (simp add: i)
  qed
qed


lemma ilog2_less:
  assumes "0 < q" and "q < 2 powi n"
  shows "ilog2 q < n"
proof (rule ccontr)
  assume "\<not> ilog2 q < n"
  then have "n \<le> ilog2 q" by simp
  then have "(2::rat) powi n \<le> 2 powi (ilog2 q)" by (simp add: power_int_increasing)
  then show False using ilog2_le [OF assms(1)] assms(2) by linarith
qed

lemma round_to_pos_unfold:
  "q \<noteq> 0 \<Longrightarrow> round_to p q
     = rat_of_int (round_half_even (q / 2 powi (ilog2 q - (int p - 1)))) * 2 powi (ilog2 q - (int p - 1))"
  by (simp add: round_to_def Let_def)

lemma round_to_nonneg:
  assumes "0 \<le> q"
  shows "0 \<le> round_to p q"
proof (cases "q = 0")
  case True
  then show ?thesis by (simp add: round_to_def)
next
  case False
  define u :: rat where "u = 2 powi (ilog2 q - (int p - 1))"
  have u: "0 < u" by (simp add: u_def)
  have "rat_of_int 0 \<le> q / u" using assms u by simp
  then have "0 \<le> round_half_even (q / u)" by (rule round_half_even_ge)
  then show ?thesis using u False by (simp add: round_to_pos_unfold u_def [symmetric])
qed

lemma round_to_exact:
  assumes "q \<noteq> 0" and "q / 2 powi (ilog2 q - (int p - 1)) = rat_of_int k"
  shows "round_to p q = q"
proof -
  define u :: rat where "u = 2 powi (ilog2 q - (int p - 1))"
  have u: "0 < u" by (simp add: u_def)
  have "q / u = rat_of_int k" using assms(2) by (simp only: u_def)
  then have "rat_of_int (round_half_even (q / u)) * u = (q / u) * u" by simp
  also have "\<dots> = q" using u by simp
  finally have "rat_of_int (round_half_even (q / u)) * u = q" .
  moreover have r: "round_to p q = rat_of_int (round_half_even (q / u)) * u"
    using assms(1) by (simp add: round_to_pos_unfold u_def)
  ultimately show ?thesis by simp
qed

text \<open>Below \<open>2 ^ p\<close> the spacing of the representable numbers is one over a power of two.\<close>

lemma quantum_inverse:
  assumes "0 < q" and "q < 2 powi (int p - int j)"
  obtains s :: nat where "1 / 2 powi (ilog2 q - (int p - 1)) = (2::rat) ^ j * 2 ^ s"
proof -
  have "ilog2 q < int p - int j" using ilog2_less [OF assms] .
  then have s: "0 \<le> int p - 1 - ilog2 q - int j" by simp
  define s where "s = nat (int p - 1 - ilog2 q - int j)"
  have "1 / (2::rat) powi (ilog2 q - (int p - 1)) = 2 powi (- (ilog2 q - (int p - 1)))"
    by (simp only: power_int_minus_divide)
  also have "- (ilog2 q - (int p - 1)) = int j + int s" using s by (simp add: s_def)
  also have "(2::rat) powi (int j + int s) = 2 ^ j * 2 ^ s"
    by (simp add: power_int_add)
  finally show ?thesis using that by blast
qed

lemma round_to_dyadic:
  assumes "0 < q" and "q < 2 powi (int p - int j)" and "q * 2 ^ j = rat_of_int k"
  shows "round_to p q = q"
proof -
  from quantum_inverse [OF assms(1,2)] obtain s :: nat where
    s: "1 / 2 powi (ilog2 q - (int p - 1)) = (2::rat) ^ j * 2 ^ s" by blast
  have "q / 2 powi (ilog2 q - (int p - 1)) = q * (1 / 2 powi (ilog2 q - (int p - 1)))" by simp
  also have "\<dots> = (q * 2 ^ j) * 2 ^ s" by (simp only: s mult.assoc)
  also have "\<dots> = rat_of_int (k * 2 ^ s)" by (simp add: assms(3))
  finally have "q / 2 powi (ilog2 q - (int p - 1)) = rat_of_int (k * 2 ^ s)" .
  moreover have "q \<noteq> 0" using assms(1) by simp
  ultimately show ?thesis by (rule round_to_exact [rotated])
qed

lemma round_to_le_int:
  assumes "0 < q" and "q < 2 ^ p" and "q \<le> rat_of_int n"
  shows "round_to p q \<le> rat_of_int n"
proof -
  define u :: rat where "u = 2 powi (ilog2 q - (int p - 1))"
  have u: "0 < u" by (simp add: u_def)
  have "q < 2 powi (int p - int 0)" using assms(2) by simp
  from quantum_inverse [OF assms(1) this] obtain s :: nat where "1 / u = 2 ^ 0 * 2 ^ s"
    unfolding u_def by blast
  then have s: "1 / u = rat_of_int (2 ^ s)" by simp
  have "q / u = q * (1 / u)" by simp
  also have "\<dots> \<le> rat_of_int n * (1 / u)" using assms(3) u by (simp add: divide_right_mono)
  also have "\<dots> = rat_of_int (n * 2 ^ s)" by (simp add: s)
  finally have "round_half_even (q / u) \<le> n * 2 ^ s" by (rule round_half_even_le)
  then have "rat_of_int (round_half_even (q / u)) \<le> rat_of_int (n * 2 ^ s)" by (simp only: of_int_le_iff)
  then have "rat_of_int (round_half_even (q / u)) * u \<le> rat_of_int (n * 2 ^ s) * u"
    using u by (simp only: mult_le_cancel_right_pos)
  also have "rat_of_int (n * 2 ^ s) * u = rat_of_int n * ((1 / u) * u)" by (simp add: s)
  also have "\<dots> = rat_of_int n" using u by simp
  finally have "rat_of_int (round_half_even (q / u)) * u \<le> rat_of_int n" .
  moreover have r: "round_to p q = rat_of_int (round_half_even (q / u)) * u"
    using assms(1) by (simp add: round_to_pos_unfold u_def)
  ultimately show ?thesis by simp
qed

lemma round_to_gt_int:
  assumes "0 < q" and "q < 2 ^ p" and "rat_of_int n + q / 2 ^ p < q"
  shows "rat_of_int n < round_to p q"
proof -
  define u :: rat where "u = 2 powi (ilog2 q - (int p - 1))"
  have u: "0 < u" by (simp add: u_def)
  have "q < 2 powi (int p - int 0)" using assms(2) by simp
  from quantum_inverse [OF assms(1) this] obtain s :: nat where "1 / u = 2 ^ 0 * 2 ^ s"
    unfolding u_def by blast
  then have s: "1 / u = rat_of_int (2 ^ s)" by simp
  have "u / 2 = 2 powi (ilog2 q) / 2 ^ p"
    by (simp add: u_def power_int_diff power_int_add)
  also have "\<dots> \<le> q / 2 ^ p" using ilog2_le [OF assms(1)] by (simp add: divide_right_mono)
  finally have "rat_of_int n + u / 2 < q" using assms(3) by linarith
  then have "(rat_of_int n + u / 2) * (1 / u) < q * (1 / u)"
    using u by (simp only: mult_less_cancel_right_pos zero_less_divide_1_iff)
  then have "rat_of_int n * (1 / u) + 1 / 2 < q / u" using u by (simp add: field_simps)
  then have "rat_of_int (n * 2 ^ s) + 1 / 2 < q / u" by (simp add: s)
  then have "n * 2 ^ s < round_half_even (q / u)" by (rule round_half_even_gt)
  then have "rat_of_int (n * 2 ^ s) < rat_of_int (round_half_even (q / u))" by (simp only: of_int_less_iff)
  then have "rat_of_int (n * 2 ^ s) * u < rat_of_int (round_half_even (q / u)) * u"
    using u by (simp only: mult_less_cancel_right_pos)
  moreover have "rat_of_int (n * 2 ^ s) * u = rat_of_int n * ((1 / u) * u)" by (simp add: s)
  moreover have "rat_of_int n * ((1 / u) * u) = rat_of_int n" using u by simp
  ultimately have "rat_of_int n < rat_of_int (round_half_even (q / u)) * u" by (simp only:)
  moreover have r: "round_to p q = rat_of_int (round_half_even (q / u)) * u"
    using assms(1) by (simp add: round_to_pos_unfold u_def)
  ultimately show ?thesis by simp
qed

lemma round_to_error:
  assumes "0 < q"
  shows "round_to p q \<le> q + q / 2 ^ p"
proof -
  define u :: rat where "u = 2 powi (ilog2 q - (int p - 1))"
  have u: "0 < u" by (simp add: u_def)
  have "u / 2 = 2 powi (ilog2 q) / 2 ^ p"
    by (simp add: u_def power_int_diff power_int_add)
  also have "\<dots> \<le> q / 2 ^ p" using ilog2_le [OF assms(1)] by (simp add: divide_right_mono)
  finally have h: "u / 2 \<le> q / 2 ^ p" .
  have "rat_of_int (round_half_even (q / u)) * u \<le> (q / u + 1 / 2) * u"
    using round_half_even_near(1) [of "q / u"] u by (simp only: mult_le_cancel_right_pos)
  also have "\<dots> = q + u / 2" using u by (simp add: field_simps)
  finally have "rat_of_int (round_half_even (q / u)) * u \<le> q + q / 2 ^ p" using h by linarith
  moreover have r: "round_to p q = rat_of_int (round_half_even (q / u)) * u"
    using assms(1) by (simp add: round_to_pos_unfold u_def)
  ultimately show ?thesis by simp
qed

section \<open>Properties of the decimation job\<close>

subsection \<open>Bucket arithmetic\<close>

text \<open>
  Whatever the frame count, a nonzero number of points gives a bucket size and a bin
  count, and both are at least one.
\<close>

lemma bucket_bins_total:
  assumes "pts \<noteq> 0"
  shows "\<exists>bucket bins.
           bucket_of total_frames pts = Some bucket
         \<and> bins_of total_frames bucket = Some bins
         \<and> 1 \<le> bucket \<and> 1 \<le> bins"
proof -
  obtain bucket where b: "bucket_of total_frames pts = Some bucket" "1 \<le> bucket"
    using assms by (auto simp: bucket_of_def ceil_div_def)
  then have "bucket \<noteq> 0" by simp
  then obtain bins where "bins_of total_frames bucket = Some bins" "1 \<le> bins"
    by (auto simp: bins_of_def ceil_div_def)
  with b show ?thesis by blast
qed

text \<open>
  For a numerator below \<open>2 ^ 53\<close> the rounding of the quotient does not change its
  ceiling: the quotient lies between two neighbouring integers, which are representable,
  and at a distance from the lower one of at least \<open>1 / b\<close>, more than half a unit in
  the last place.
\<close>

lemma ceil_float64_exact:
  assumes a: "0 < a" and a53: "a < 2 ^ 53" and b: "0 < b"
  shows "max 1 \<lceil>float64 (rat_of_int a / rat_of_int b)\<rceil> = \<lceil>rat_of_int a / rat_of_int b\<rceil>"
proof -
  define q where "q = rat_of_int a / rat_of_int b"
  define c where "c = \<lceil>q\<rceil>"
  have q: "0 < q" using a b by (simp add: q_def)
  have "q \<le> rat_of_int a" using a b by (simp add: q_def pos_divide_le_eq mult_le_cancel_left1)
  moreover have "rat_of_int a < rat_of_int (2 ^ 53)" using a53 by (simp only: of_int_less_iff)
  ultimately have q53: "q < 2 ^ 53" by simp
  have "0 < c" using q unfolding c_def by (simp only: zero_less_ceiling)
  then have c1: "1 \<le> c" by simp
  have "q \<le> rat_of_int c" by (simp add: c_def)
  then have "float64 q \<le> rat_of_int c" unfolding float64_def using q q53 by (intro round_to_le_int)
  then have up: "\<lceil>float64 q\<rceil> \<le> c" by (simp add: ceiling_le_iff)
  have "max 1 \<lceil>float64 q\<rceil> = c"
  proof (cases "c = 1")
    case True
    then show ?thesis using up by simp
  next
    case False
    define n where "n = c - 1"
    have n: "1 \<le> n" using c1 False by (simp add: n_def)
    have "rat_of_int n < q" unfolding n_def c_def by linarith
    then have "rat_of_int n * rat_of_int b < rat_of_int a" using b by (simp add: q_def pos_less_divide_eq)
    then have "rat_of_int (n * b) < rat_of_int a" by simp
    then have "n * b < a" by (simp only: of_int_less_iff)
    then have "n * b + 1 \<le> a" by simp
    then have "rat_of_int (n * b + 1) \<le> rat_of_int a" by (simp only: of_int_le_iff)
    then have "rat_of_int n * rat_of_int b + 1 \<le> rat_of_int a" by simp
    then have "(rat_of_int n * rat_of_int b + 1) / rat_of_int b \<le> q"
      using b by (simp add: q_def divide_right_mono)
    then have lo: "rat_of_int n + 1 / rat_of_int b \<le> q" using b by (simp add: add_divide_distrib)
    have "q / 2 ^ 53 = (rat_of_int a / 2 ^ 53) / rat_of_int b" by (simp add: q_def)
    also have "\<dots> < 1 / rat_of_int b"
    proof -
      have "rat_of_int a / 2 ^ 53 < 1" using \<open>rat_of_int a < rat_of_int (2 ^ 53)\<close> by simp
      moreover have "0 < rat_of_int b" using b by simp
      ultimately show ?thesis by (rule divide_strict_right_mono)
    qed
    finally have "rat_of_int n + q / 2 ^ 53 < q" using lo by linarith
    then have "rat_of_int n < float64 q" unfolding float64_def using q q53 by (intro round_to_gt_int)
    then have "n < \<lceil>float64 q\<rceil>" by (simp add: less_ceiling_iff)
    then have "c \<le> \<lceil>float64 q\<rceil>" by (simp add: n_def)
    then show ?thesis using up c1 by simp
  qed
  then show ?thesis by (simp add: q_def c_def)
qed

lemma ceil_div_exact:
  assumes "0 < a" and "a < 2 ^ 53" and "0 < b"
  shows "map_option (max 1) (ceil_div a b) = Some \<lceil>rat_of_int a / rat_of_int b\<rceil>"
  using ceil_float64_exact [OF assms] assms(3) by (simp add: ceil_div_def)

text \<open>
  Claim C2, as amended. For a file with \<open>0 < total_frames < 2 ^ 53\<close> and a requested
  number of points \<open>points \<ge> 1\<close>, the job computes \<open>bucket = \<lceil>total_frames / points\<rceil>\<close>
  and \<open>bins = \<lceil>total_frames / bucket\<rceil>\<close>, the ceilings of the exact quotients (neither
  division raises), and \<open>1 \<le> bins \<le> points\<close>.
\<close>

theorem bins_bounded:
  assumes F: "0 < total_frames" and F53: "total_frames < 2 ^ 53" and T: "1 \<le> pts"
  shows "\<exists>bucket bins.
           bucket_of total_frames pts = Some bucket
         \<and> bins_of total_frames bucket = Some bins
         \<and> bucket = \<lceil>rat_of_int total_frames / rat_of_int pts\<rceil>
         \<and> bins = \<lceil>rat_of_int total_frames / rat_of_int bucket\<rceil>
         \<and> 1 \<le> bins \<and> bins \<le> pts"
proof -
  define b0 where "b0 = \<lceil>rat_of_int total_frames / rat_of_int pts\<rceil>"
  have T0: "0 < pts" using T by simp
  have bucket: "bucket_of total_frames pts = Some b0"
    unfolding bucket_of_def b0_def by (rule ceil_div_exact [OF F F53 T0])
  have "0 < rat_of_int total_frames / rat_of_int pts" using F T0 by simp
  then have b0_pos: "0 < b0" unfolding b0_def by (simp only: zero_less_ceiling)
  define n0 where "n0 = \<lceil>rat_of_int total_frames / rat_of_int b0\<rceil>"
  have bins: "bins_of total_frames b0 = Some n0"
    unfolding bins_of_def n0_def by (rule ceil_div_exact [OF F F53 b0_pos])
  have "0 < rat_of_int total_frames / rat_of_int b0" using F b0_pos by simp
  then have "0 < n0" unfolding n0_def by (simp only: zero_less_ceiling)
  then have n0_pos: "1 \<le> n0" by simp
  have "rat_of_int total_frames / rat_of_int pts \<le> rat_of_int b0" by (simp add: b0_def)
  then have "rat_of_int total_frames \<le> rat_of_int b0 * rat_of_int pts"
    using T0 by (simp add: pos_divide_le_eq)
  then have "rat_of_int total_frames / rat_of_int b0 \<le> rat_of_int pts"
    using b0_pos by (simp add: pos_divide_le_eq mult.commute)
  then have "n0 \<le> pts" unfolding n0_def by (simp add: ceiling_le_iff)
  then show ?thesis using bucket bins n0_pos by (auto simp: b0_def n0_def)
qed

theorem bins_bounded_witness:
  "(0::int) < 48000 \<and> (48000::int) < 2 ^ 53 \<and> (1::int) \<le> 100
   \<and> bucket_of 48000 100 = Some 480 \<and> bins_of 48000 480 = Some 100"
proof -
  have "\<exists>bucket bins. bucket_of 48000 100 = Some bucket \<and> bins_of 48000 bucket = Some bins
          \<and> bucket = \<lceil>rat_of_int 48000 / rat_of_int 100\<rceil>
          \<and> bins = \<lceil>rat_of_int 48000 / rat_of_int bucket\<rceil> \<and> 1 \<le> bins \<and> bins \<le> 100"
    using bins_bounded [of 48000 100] by simp
  then obtain bucket bins where
    b: "bucket_of 48000 100 = Some bucket" "bins_of 48000 bucket = Some bins"
       "bucket = \<lceil>rat_of_int 48000 / rat_of_int 100\<rceil>"
       "bins = \<lceil>rat_of_int 48000 / rat_of_int bucket\<rceil>"
    by blast
  have "bucket = 480" unfolding b(3) by simp
  moreover from this have "bins = 100" unfolding b(4) by simp
  ultimately show ?thesis using b(1,2) by simp
qed

text \<open>
  Claim C2 as stated fails for long files. From \<open>2 ^ 53\<close> frames on the quotient of the two
  ints is no longer exact in binary64. For \<open>total_frames = 2 ^ 50 * 4200 + 520\<close> and 4200
  points the quotient \<open>2 ^ 50 + 13 / 105\<close> is rounded down to \<open>2 ^ 50\<close>, so the bucket is
  one less than \<open>\<lceil>total_frames / points\<rceil>\<close>, and the job makes 4201 bins, one more than
  the points requested.
\<close>

theorem bins_exceed_points:
  "(0::int) < 2 ^ 50 * 4200 + 520 \<and> (1::int) \<le> 4200
   \<and> bucket_of (2 ^ 50 * 4200 + 520) 4200 = Some (2 ^ 50)
   \<and> \<lceil>rat_of_int (2 ^ 50 * 4200 + 520) / rat_of_int 4200\<rceil> = 2 ^ 50 + 1
   \<and> bins_of (2 ^ 50 * 4200 + 520) (2 ^ 50) = Some 4201
   \<and> \<not> (4201::int) \<le> 4200"
  by code_simp

subsection \<open>One chunk: peak hold per bin and channel\<close>

text \<open>The values that a list of (row index, value) pairs sends to row \<open>b\<close>, in order.\<close>

definition hits :: "nat \<Rightarrow> (nat \<times> f32) list \<Rightarrow> f32 list" where
  "hits b ivs = map snd (filter (\<lambda>iv. fst iv = b) ivs)"

lemma hits_simps [simp]:
  "hits b [] = []"
  "hits b ((i, v) # ivs) = (if i = b then v # hits b ivs else hits b ivs)"
  by (simp_all add: hits_def)

lemma maximum_at_props:
  assumes "\<forall>iv\<in>set ivs. fst iv < length m"
  shows "\<exists>m'. maximum_at m c ivs = Some m' \<and> length m' = length m
           \<and> (\<forall>b<length m. length (m' ! b) = length (m ! b))
           \<and> (\<forall>b<length m. \<forall>c'. m' ! b ! c' =
                 (if c' = c \<and> c < length (m ! b) then foldl np_maximum (m ! b ! c) (hits b ivs)
                  else m ! b ! c'))"
  using assms
proof (induction ivs arbitrary: m)
  case Nil
  then show ?case by simp
next
  case (Cons iv ivs)
  obtain i v where iv: "iv = (i, v)" by (cases iv)
  have i: "i < length m" using Cons.prems iv by simp
  define m1 where "m1 = m[i := (m ! i)[c := np_maximum (m ! i ! c) v]]"
  have len1: "length m1 = length m" by (simp add: m1_def)
  have rows1: "\<And>b. b < length m \<Longrightarrow> length (m1 ! b) = length (m ! b)"
    using i by (simp add: m1_def nth_list_update)
  have cell1: "\<And>b c'. b < length m \<Longrightarrow>
      m1 ! b ! c' = (if b = i \<and> c' = c \<and> c < length (m ! i) then np_maximum (m ! i ! c) v else m ! b ! c')"
    using i by (auto simp add: m1_def nth_list_update list_update_beyond)
  have "\<forall>iv\<in>set ivs. fst iv < length m1" using Cons.prems len1 by simp
  from Cons.IH [OF this] obtain m' where
    m': "maximum_at m1 c ivs = Some m'" "length m' = length m1"
        "\<forall>b<length m1. length (m' ! b) = length (m1 ! b)"
        "\<forall>b<length m1. \<forall>c'. m' ! b ! c' =
                 (if c' = c \<and> c < length (m1 ! b) then foldl np_maximum (m1 ! b ! c) (hits b ivs)
                  else m1 ! b ! c')"
    by blast
  have "maximum_at m c (iv # ivs) = Some m'" using m'(1) i iv by (simp add: m1_def)
  moreover have "length m' = length m" using m'(2) len1 by simp
  moreover have "\<forall>b<length m. length (m' ! b) = length (m ! b)"
    using m'(3) len1 rows1 by simp
  moreover have "\<forall>b<length m. \<forall>c'. m' ! b ! c' =
                 (if c' = c \<and> c < length (m ! b) then foldl np_maximum (m ! b ! c) (hits b (iv # ivs))
                  else m ! b ! c')"
  proof (intro allI impI)
    fix b c' assume b: "b < length m"
    then have "m' ! b ! c' = (if c' = c \<and> c < length (m1 ! b) then foldl np_maximum (m1 ! b ! c) (hits b ivs)
                  else m1 ! b ! c')" using m'(4) len1 by simp
    then show "m' ! b ! c' =
                 (if c' = c \<and> c < length (m ! b) then foldl np_maximum (m ! b ! c) (hits b (iv # ivs))
                  else m ! b ! c')"
      using b rows1 [OF b] cell1 [OF b] iv by auto
  qed
  ultimately show ?case by blast
qed

lemma update_channels_props:
  assumes "distinct cs" and "\<forall>c\<in>set cs. c < cols amp \<and> c < cols absch"
    and "\<forall>i\<in>set idx. i < nrows amp"
  shows "\<exists>amp'. update_channels amp idx absch cs = Some amp' \<and> cols amp' = cols amp
           \<and> nrows amp' = nrows amp
           \<and> (\<forall>b<nrows amp. length (cells amp' ! b) = length (cells amp ! b))
           \<and> (\<forall>b<nrows amp. \<forall>c'. cells amp' ! b ! c' =
                 (if c' \<in> set cs \<and> c' < length (cells amp ! b)
                  then foldl np_maximum (cells amp ! b ! c') (hits b (zip idx (column absch c')))
                  else cells amp ! b ! c'))"
  using assms
proof (induction cs arbitrary: amp)
  case Nil
  then show ?case by simp
next
  case (Cons c cs)
  define ivs where "ivs = zip idx (column absch c)"
  have "\<forall>iv\<in>set ivs. fst iv < length (cells amp)"
    using Cons.prems(3) by (auto simp: ivs_def nrows_def dest: set_zip_leftD)
  from maximum_at_props [OF this, of c] obtain m where
    m: "maximum_at (cells amp) c ivs = Some m" "length m = length (cells amp)"
       "\<forall>b<length (cells amp). length (m ! b) = length (cells amp ! b)"
       "\<forall>b<length (cells amp). \<forall>c'. m ! b ! c' =
                 (if c' = c \<and> c < length (cells amp ! b) then foldl np_maximum (cells amp ! b ! c) (hits b ivs)
                  else cells amp ! b ! c')"
    by blast
  define amp1 where "amp1 = amp\<lparr>cells := m\<rparr>"
  have a1: "cols amp1 = cols amp" "nrows amp1 = nrows amp" "cells amp1 = m"
    using m(2) by (simp_all add: amp1_def nrows_def)
  have "distinct cs" "\<forall>c\<in>set cs. c < cols amp1 \<and> c < cols absch" "\<forall>i\<in>set idx. i < nrows amp1"
    using Cons.prems a1 by simp_all
  from Cons.IH [OF this] obtain amp' where
    amp': "update_channels amp1 idx absch cs = Some amp'" "cols amp' = cols amp1"
      "nrows amp' = nrows amp1"
      "\<forall>b<nrows amp1. length (cells amp' ! b) = length (cells amp1 ! b)"
      "\<forall>b<nrows amp1. \<forall>c'. cells amp' ! b ! c' =
                 (if c' \<in> set cs \<and> c' < length (cells amp1 ! b)
                  then foldl np_maximum (cells amp1 ! b ! c') (hits b (zip idx (column absch c')))
                  else cells amp1 ! b ! c')"
    by blast
  have c: "c < cols amp" "c < cols absch" "c \<notin> set cs" using Cons.prems by simp_all
  have "update_channels amp idx absch (c # cs) = Some amp'"
    using amp'(1) m(1) c by (simp add: ivs_def amp1_def)
  moreover have "cols amp' = cols amp" "nrows amp' = nrows amp" using amp' a1 by simp_all
  moreover have "\<forall>b<nrows amp. length (cells amp' ! b) = length (cells amp ! b)"
    using amp'(4) a1 m(3) by (simp add: nrows_def)
  moreover have "\<forall>b<nrows amp. \<forall>c'. cells amp' ! b ! c' =
                 (if c' \<in> set (c # cs) \<and> c' < length (cells amp ! b)
                  then foldl np_maximum (cells amp ! b ! c') (hits b (zip idx (column absch c')))
                  else cells amp ! b ! c')"
  proof (intro allI impI)
    fix b c' assume b: "b < nrows amp"
    have 1: "cells amp' ! b ! c' =
                 (if c' \<in> set cs \<and> c' < length (m ! b)
                  then foldl np_maximum (m ! b ! c') (hits b (zip idx (column absch c')))
                  else m ! b ! c')" using amp'(5) a1 b by simp
    have 2: "length (m ! b) = length (cells amp ! b)" using m(3) b by (simp add: nrows_def)
    have 3: "m ! b ! c' = (if c' = c \<and> c < length (cells amp ! b) then foldl np_maximum (cells amp ! b ! c) (hits b ivs)
                  else cells amp ! b ! c')" using m(4) b by (simp add: nrows_def)
    show "cells amp' ! b ! c' =
                 (if c' \<in> set (c # cs) \<and> c' < length (cells amp ! b)
                  then foldl np_maximum (cells amp ! b ! c') (hits b (zip idx (column absch c')))
                  else cells amp ! b ! c')"
      using 1 2 3 c(3) by (auto simp: ivs_def)
  qed
  ultimately show ?case by blast
qed

text \<open>
  The claim's reading of the loop, written from the spec's words: the frames \<open>frs\<close> sit at
  the absolute positions \<open>pos, pos + 1, \<dots>\<close>; \<open>bin_samples\<close> lists, in stream
  order, the absolute sample values of channel \<open>c\<close> of the frames whose destination bin
  \<open>min (position div bucket) (bins - 1)\<close> is \<open>b\<close>.
\<close>

definition bin_samples :: "nat \<Rightarrow> nat \<Rightarrow> nat \<Rightarrow> nat \<Rightarrow> nat \<Rightarrow> f32 list list \<Rightarrow> f32 list" where
  "bin_samples bucket bins b c pos frs =
     map (\<lambda>pf. np_abs (snd pf ! c))
       (filter (\<lambda>pf. min (fst pf div bucket) (bins - 1) = b) (zip [pos..<pos + length frs] frs))"

lemma bin_index_less: "1 \<le> bins \<Longrightarrow> bin_index bucket bins p < bins"
  by (simp add: bin_index_def Let_def)

lemma bin_index_spec: "1 \<le> bins \<Longrightarrow> bin_index bucket bins p = min (p div bucket) (bins - 1)"
  by (auto simp: bin_index_def Let_def min_def)

lemma bin_samples_Cons:
  "bin_samples bucket bins b c pos (fr # frs) =
     (if min (pos div bucket) (bins - 1) = b then [np_abs (fr ! c)] else [])
       @ bin_samples bucket bins b c (Suc pos) frs"
proof -
  have "[pos..<pos + length (fr # frs)] = pos # [Suc pos..<Suc pos + length frs]"
    by (simp add: upt_conv_Cons del: upt_Suc)
  then show ?thesis by (simp add: bin_samples_def del: upt_Suc)
qed

lemma hits_zip_bin_samples:
  assumes "\<forall>r\<in>set frs. c < length r" and "1 \<le> bins"
  shows "hits b (zip (map (\<lambda>i. bin_index bucket bins (pos + i)) [0..<length frs])
                     (map (\<lambda>r. r ! c) (map (map np_abs) frs)))
         = bin_samples bucket bins b c pos frs"
  using assms
proof (induction frs arbitrary: pos)
  case Nil
  then show ?case by (simp add: bin_samples_def)
next
  case (Cons fr frs)
  have IH: "hits b (zip (map (\<lambda>i. bin_index bucket bins (Suc pos + i)) [0..<length frs])
                     (map (\<lambda>r. r ! c) (map (map np_abs) frs)))
         = bin_samples bucket bins b c (Suc pos) frs"
    using Cons.IH [of "Suc pos"] Cons.prems by simp
  have c: "c < length fr" using Cons.prems by simp
  have "map (\<lambda>i. bin_index bucket bins (pos + i)) [0..<length (fr # frs)]
        = bin_index bucket bins pos # map (\<lambda>i. bin_index bucket bins (Suc pos + i)) [0..<length frs]"
    by (simp add: map_upt_Suc del: upt_Suc)
  then show ?case using IH c Cons.prems(2)
    by (simp add: bin_samples_Cons bin_index_spec del: upt_Suc)
qed

lemma wf_array2dD: "wf_array2d a \<Longrightarrow> b < nrows a \<Longrightarrow> length (cells a ! b) = cols a"
  by (simp add: wf_array2d_def nrows_def list_all_length)

lemma process_chunk_props:
  assumes amp: "wf_array2d amp" and chunk: "wf_array2d chunk"
    and bins: "nrows amp = bins" "1 \<le> bins"
  shows "\<exists>amp'. process_chunk bucket bins amp pos chunk = Some amp'
           \<and> cols amp' = cols amp \<and> nrows amp' = bins \<and> wf_array2d amp'
           \<and> (\<forall>b<bins. \<forall>c<cols amp. cells amp' ! b ! c =
                 (if c < cols chunk
                  then foldl np_maximum (cells amp ! b ! c) (bin_samples bucket bins b c pos (cells chunk))
                  else cells amp ! b ! c))"
proof -
  define absch where "absch = chunk\<lparr>cells := map (map np_abs) (cells chunk)\<rparr>"
  define idx where "idx = bin_indices bucket bins pos (nrows absch)"
  define cs where "cs = [0..<min (cols amp) (cols absch)]"
  have pc: "process_chunk bucket bins amp pos chunk = update_channels amp idx absch cs"
    by (simp add: process_chunk_def Let_def absch_def idx_def cs_def)
  have 1: "distinct cs" by (simp add: cs_def)
  have 2: "\<forall>c\<in>set cs. c < cols amp \<and> c < cols absch" by (simp add: cs_def)
  have 3: "\<forall>i\<in>set idx. i < nrows amp"
    using bins by (auto simp: idx_def bin_indices_def bin_index_less)
  from update_channels_props [OF 1 2 3] obtain amp' where
    amp': "update_channels amp idx absch cs = Some amp'" "cols amp' = cols amp"
      "nrows amp' = nrows amp"
      "\<forall>b<nrows amp. length (cells amp' ! b) = length (cells amp ! b)"
      "\<forall>b<nrows amp. \<forall>c'. cells amp' ! b ! c' =
                 (if c' \<in> set cs \<and> c' < length (cells amp ! b)
                  then foldl np_maximum (cells amp ! b ! c') (hits b (zip idx (column absch c')))
                  else cells amp ! b ! c')"
    by blast
  have wf': "wf_array2d amp'"
    using amp'(2,3,4) amp by (simp add: wf_array2d_def nrows_def list_all_length)
  have cell: "\<forall>b<bins. \<forall>c<cols amp. cells amp' ! b ! c =
                 (if c < cols chunk
                  then foldl np_maximum (cells amp ! b ! c) (bin_samples bucket bins b c pos (cells chunk))
                  else cells amp ! b ! c)"
  proof (intro allI impI)
    fix b c assume b: "b < bins" and c: "c < cols amp"
    have len: "length (cells amp ! b) = cols amp" using wf_array2dD [OF amp] b bins by simp
    have eq: "cells amp' ! b ! c =
                 (if c \<in> set cs
                  then foldl np_maximum (cells amp ! b ! c) (hits b (zip idx (column absch c)))
                  else cells amp ! b ! c)"
      using amp'(5) b bins c len by simp
    show "cells amp' ! b ! c =
                 (if c < cols chunk
                  then foldl np_maximum (cells amp ! b ! c) (bin_samples bucket bins b c pos (cells chunk))
                  else cells amp ! b ! c)"
    proof (cases "c < cols chunk")
      case True
      have "\<forall>r\<in>set (cells chunk). c < length r"
        using chunk True by (simp add: wf_array2d_def list_all_iff)
      from hits_zip_bin_samples [OF this bins(2), of b bucket pos]
      have "hits b (zip idx (column absch c)) = bin_samples bucket bins b c pos (cells chunk)"
        by (simp add: idx_def bin_indices_def column_def absch_def nrows_def)
      moreover have "c \<in> set cs" using True c by (simp add: cs_def absch_def)
      ultimately show ?thesis using eq True by simp
    next
      case False
      then have "c \<notin> set cs" by (simp add: cs_def absch_def)
      then show ?thesis using eq False by simp
    qed
  qed
  show ?thesis using pc amp' wf' cell bins by auto
qed

subsection \<open>The whole stream\<close>

lemma bin_samples_append:
  "bin_samples bucket bins b c pos (xs @ ys) =
     bin_samples bucket bins b c pos xs @ bin_samples bucket bins b c (pos + length xs) ys"
proof (induction xs arbitrary: pos)
  case Nil
  then show ?case by (simp add: bin_samples_def)
next
  case (Cons fr xs)
  show ?case using Cons.IH [of "Suc pos"] by (simp add: bin_samples_Cons)
qed

lemma stream_props:
  assumes never: "cancel_at w = None"
    and chunks: "\<forall>ch\<in>set chunks. wf_array2d ch \<and> size2d ch \<noteq> 0"
    and amp: "wf_array2d amp" and bins: "nrows amp = bins" "1 \<le> bins"
  shows "\<exists>evs amp'.
           stream j w bucket bins x k (map Inr chunks) amp pos last_emit
             = (evs, Inr amp', Suc (k + length chunks))
         \<and> (\<forall>e\<in>set evs. \<exists>a b c d e' f. e = ProgressReady a b c d e' f)
         \<and> cols amp' = cols amp \<and> nrows amp' = bins \<and> wf_array2d amp'
         \<and> (\<forall>b<bins. \<forall>c<cols amp. (\<forall>ch\<in>set chunks. c < cols ch) \<longrightarrow>
               cells amp' ! b ! c =
                 foldl np_maximum (cells amp ! b ! c)
                   (bin_samples bucket bins b c pos (concat (map cells chunks))))"
  using chunks amp bins
proof (induction chunks arbitrary: amp pos last_emit k)
  case Nil
  then show ?case by (simp add: bin_samples_def)
next
  case (Cons ch chunks)
  have ch: "wf_array2d ch" "size2d ch \<noteq> 0" using Cons.prems(1) by simp_all
  from process_chunk_props [OF Cons.prems(2) ch(1) Cons.prems(3,4), of bucket pos]
  obtain amp1 where
    a1: "process_chunk bucket bins amp pos ch = Some amp1" "cols amp1 = cols amp"
        "nrows amp1 = bins" "wf_array2d amp1"
        "\<forall>b<bins. \<forall>c<cols amp. cells amp1 ! b ! c =
                 (if c < cols ch
                  then foldl np_maximum (cells amp ! b ! c) (bin_samples bucket bins b c pos (cells ch))
                  else cells amp ! b ! c)"
    by blast
  define pos1 where "pos1 = pos + nrows ch"
  define emit where "emit = (emit_progress j \<and> monotonic w k - last_emit \<ge> progress_interval j)"
  define last1 where "last1 = (if emit then monotonic w k else last_emit)"
  define ev where "ev = (if emit
                         then [ProgressReady (request_id j) (path j) x amp1
                                 (filled_bins bins pos1 bucket) bins]
                         else [])"
  have rest: "\<forall>ch\<in>set chunks. wf_array2d ch \<and> size2d ch \<noteq> 0" using Cons.prems(1) by simp
  from Cons.IH [OF rest a1(4) a1(3) Cons.prems(4), of "Suc k" pos1 last1]
  obtain evs amp' where
    r: "stream j w bucket bins x (Suc k) (map Inr chunks) amp1 pos1 last1
             = (evs, Inr amp', Suc (Suc k + length chunks))"
       "\<forall>e\<in>set evs. \<exists>a b c d e' f. e = ProgressReady a b c d e' f"
       "cols amp' = cols amp1" "nrows amp' = bins" "wf_array2d amp'"
       "\<forall>b<bins. \<forall>c<cols amp1. (\<forall>ch\<in>set chunks. c < cols ch) \<longrightarrow>
               cells amp' ! b ! c =
                 foldl np_maximum (cells amp1 ! b ! c)
                   (bin_samples bucket bins b c pos1 (concat (map cells chunks)))"
    by blast
  have not_c: "\<not> cancelled w k" using never by (simp add: cancelled_def)
  have s: "stream j w bucket bins x k (map Inr (ch # chunks)) amp pos last_emit
             = (ev @ evs, Inr amp', Suc (k + length (ch # chunks)))"
    using not_c ch(2) a1(1) r(1)
    by (simp add: Let_def pos1_def emit_def last1_def ev_def)
  have evs: "\<forall>e\<in>set (ev @ evs). \<exists>a b c d e' f. e = ProgressReady a b c d e' f"
    using r(2) by (auto simp: ev_def)
  have cell: "\<forall>b<bins. \<forall>c<cols amp. (\<forall>ch\<in>set (ch # chunks). c < cols ch) \<longrightarrow>
               cells amp' ! b ! c =
                 foldl np_maximum (cells amp ! b ! c)
                   (bin_samples bucket bins b c pos (concat (map cells (ch # chunks))))"
  proof (intro allI impI)
    fix b c assume b: "b < bins" and c: "c < cols amp" and all: "\<forall>ch\<in>set (ch # chunks). c < cols ch"
    have 1: "cells amp1 ! b ! c = foldl np_maximum (cells amp ! b ! c) (bin_samples bucket bins b c pos (cells ch))"
      using a1(5) b c all by simp
    have 2: "cells amp' ! b ! c =
                 foldl np_maximum (cells amp1 ! b ! c)
                   (bin_samples bucket bins b c pos1 (concat (map cells chunks)))"
      using r(6) b c a1(2) all by simp
    show "cells amp' ! b ! c =
                 foldl np_maximum (cells amp ! b ! c)
                   (bin_samples bucket bins b c pos (concat (map cells (ch # chunks))))"
      using 1 2 by (simp add: bin_samples_append pos1_def nrows_def)
  qed
  have c': "cols amp' = cols amp" using r(3) a1(2) by simp
  show ?case
  proof (intro exI conjI)
    show "stream j w bucket bins x k (map Inr (ch # chunks)) amp pos last_emit
             = (ev @ evs, Inr amp', Suc (k + length (ch # chunks)))" by (rule s)
    show "\<forall>e\<in>set (ev @ evs). \<exists>a b c d e' f. e = ProgressReady a b c d e' f" by (rule evs)
    show "cols amp' = cols amp" by (rule c')
    show "nrows amp' = bins" by (rule r(4))
    show "wf_array2d amp'" by (rule r(5))
    show "\<forall>b<bins. \<forall>c<cols amp. (\<forall>ch\<in>set (ch # chunks). c < cols ch) \<longrightarrow>
               cells amp' ! b ! c =
                 foldl np_maximum (cells amp ! b ! c)
                   (bin_samples bucket bins b c pos (concat (map cells (ch # chunks))))" by (rule cell)
  qed
qed

subsection \<open>The job's final result\<close>

text \<open>Finite samples, on which \<^verbatim>\<open>np.maximum\<close> is the maximum of the order.\<close>

fun is_finite :: "f32 \<Rightarrow> bool" where
  "is_finite (Finite r) = True"
| "is_finite v = False"

lemma foldl_np_maximum_finite:
  "foldl np_maximum (Finite a) (map Finite rs) = Finite (Max (insert a (set rs)))"
proof (induction rs arbitrary: a)
  case Nil
  then show ?case by simp
next
  case (Cons r rs)
  have "Max (insert (max a r) (set rs)) = Max (insert a (insert r (set rs)))"
    by (cases "set rs = {}") (simp_all add: max.assoc)
  then show ?case using Cons.IH [of "max a r"] by simp
qed

lemma all_finite_map: "list_all is_finite vs \<Longrightarrow> \<exists>rs. vs = map Finite rs"
proof (induction vs)
  case Nil
  then show ?case by simp
next
  case (Cons v vs)
  then obtain rs where "vs = map Finite rs" by auto
  moreover obtain r where "v = Finite r" using Cons.prems by (cases v) simp_all
  ultimately have "v # vs = map Finite (r # rs)" by simp
  then show ?case by (rule exI)
qed

lemma zeros2d_props:
  "wf_array2d (zeros2d n c)" "nrows (zeros2d n c) = n" "cols (zeros2d n c) = c"
  "b < n \<Longrightarrow> c' < c \<Longrightarrow> cells (zeros2d n c) ! b ! c' = Finite 0"
  by (simp_all add: zeros2d_def wf_array2d_def nrows_def list_all_length)

text \<open>
  Claim C1. Take a file with \<open>frames > 0\<close> (and a positive sample rate and point count)
  that is opened and read without error, in chunks of the header's channel count, by a job
  that is not cancelled. The job ends with one \<^verbatim>\<open>resultReady\<close> whose amplitude
  array has \<open>bins\<close> rows, and its entry for bin \<open>b\<close> and channel \<open>c\<close> is the
  running \<^verbatim>\<open>np.maximum\<close>, started at 0, over the absolute sample values of exactly the
  frames whose absolute position \<open>p\<close> since the start of the stream satisfies
  \<open>min (p div bucket) (bins - 1) = b\<close>. When these samples are finite this is their
  maximum (peak hold: no sum and no average is taken).
\<close>

theorem decimation_peak_hold:
  assumes info: "info w = Inr i" and F: "0 < frames i" and R: "0 < samplerate i"
    and T: "1 \<le> points j" and op: "open_error w = None" and never: "cancel_at w = None"
    and rd: "reads w = map Inr chunks"
    and chunks: "\<forall>ch\<in>set chunks. wf_array2d ch \<and> size2d ch \<noteq> 0 \<and> cols ch = nat (max 1 (channels i))"
  shows "\<exists>bucket bins evs x amp'.
           bucket_of (frames i) (points j) = Some (int bucket)
         \<and> bins_of (frames i) (int bucket) = Some (int bins)
         \<and> run j w = evs @ [ResultReady (request_id j) (path j) x amp']
         \<and> nrows amp' = bins \<and> cols amp' = nat (max 1 (channels i))
         \<and> (\<forall>b<bins. \<forall>c<cols amp'.
               cells amp' ! b ! c
                 = foldl np_maximum (Finite 0) (bin_samples bucket bins b c 0 (concat (map cells chunks)))
             \<and> (list_all is_finite (bin_samples bucket bins b c 0 (concat (map cells chunks))) \<longrightarrow>
                  (\<exists>rs. bin_samples bucket bins b c 0 (concat (map cells chunks)) = map Finite rs
                      \<and> cells amp' ! b ! c = Finite (Max (insert 0 (set rs))))))"
proof -
  have "points j \<noteq> 0" using T by simp
  from bucket_bins_total [OF this, of "frames i"] obtain bucket0 bins0 where
    bb: "bucket_of (frames i) (points j) = Some bucket0" "bins_of (frames i) bucket0 = Some bins0"
        "1 \<le> bins0" "1 \<le> bucket0"
    by blast
  define bucket where "bucket = nat bucket0"
  define bins where "bins = nat bins0"
  define chans where "chans = nat (max 1 (channels i))"
  define x where "x = linspace (rat_of_int (frames i) / rat_of_int (samplerate i)) bins"
  define amp where "amp = zeros2d bins chans"
  have ib: "int bucket = bucket0" using bb(4) by (simp add: bucket_def)
  have ibins: "int bins = bins0" using bb(3) by (simp add: bins_def)
  have bins1: "1 \<le> bins" using bb(3) by (simp add: bins_def)
  have ch: "\<forall>ch\<in>set chunks. wf_array2d ch \<and> size2d ch \<noteq> 0" using chunks by simp
  from stream_props [where amp = "zeros2d bins chans" and j = j and bucket = bucket and x = x
      and k = 0 and pos = 0 and last_emit = 0,
      OF never ch zeros2d_props(1) zeros2d_props(2) bins1]
  obtain evs amp' where
    s: "stream j w bucket bins x 0 (map Inr chunks) amp 0 0 = (evs, Inr amp', Suc (0 + length chunks))"
       "cols amp' = cols amp" "nrows amp' = bins"
       "\<forall>b<bins. \<forall>c<cols amp. (\<forall>ch\<in>set chunks. c < cols ch) \<longrightarrow>
               cells amp' ! b ! c =
                 foldl np_maximum (cells amp ! b ! c)
                   (bin_samples bucket bins b c 0 (concat (map cells chunks)))"
    unfolding amp_def by blast
  have camp: "cols amp = chans" by (simp add: amp_def zeros2d_props)
  have not_c: "\<And>k. \<not> cancelled w k" using never by (simp add: cancelled_def)
  have r: "run j w = evs @ [ResultReady (request_id j) (path j) x amp']"
    using info F R bb(1,2) op rd s(1) not_c
    by (simp add: run_def Let_def bucket_def bins_def chans_def x_def amp_def)
  have cell: "\<forall>b<bins. \<forall>c<cols amp'.
               cells amp' ! b ! c
                 = foldl np_maximum (Finite 0) (bin_samples bucket bins b c 0 (concat (map cells chunks)))
             \<and> (list_all is_finite (bin_samples bucket bins b c 0 (concat (map cells chunks))) \<longrightarrow>
                  (\<exists>rs. bin_samples bucket bins b c 0 (concat (map cells chunks)) = map Finite rs
                      \<and> cells amp' ! b ! c = Finite (Max (insert 0 (set rs)))))"
  proof (intro allI impI)
    fix b c assume b: "b < bins" and c: "c < cols amp'"
    have c': "c < chans" using c s(2) camp by simp
    have "\<forall>ch\<in>set chunks. c < cols ch" using chunks c' by (simp add: chans_def)
    then have 1: "cells amp' ! b ! c = foldl np_maximum (Finite 0)
                   (bin_samples bucket bins b c 0 (concat (map cells chunks)))"
      using s(4) b c' camp zeros2d_props(4) [OF b c'] by (simp add: amp_def)
    have 2: "\<exists>rs. bin_samples bucket bins b c 0 (concat (map cells chunks)) = map Finite rs
                      \<and> cells amp' ! b ! c = Finite (Max (insert 0 (set rs)))"
      if "list_all is_finite (bin_samples bucket bins b c 0 (concat (map cells chunks)))"
    proof -
      from all_finite_map [OF that] obtain rs where
        rs: "bin_samples bucket bins b c 0 (concat (map cells chunks)) = map Finite rs" by blast
      then have "cells amp' ! b ! c = Finite (Max (insert 0 (set rs)))"
        using 1 by (simp add: foldl_np_maximum_finite)
      with rs show ?thesis by blast
    qed
    show "cells amp' ! b ! c
                 = foldl np_maximum (Finite 0) (bin_samples bucket bins b c 0 (concat (map cells chunks)))
             \<and> (list_all is_finite (bin_samples bucket bins b c 0 (concat (map cells chunks))) \<longrightarrow>
                  (\<exists>rs. bin_samples bucket bins b c 0 (concat (map cells chunks)) = map Finite rs
                      \<and> cells amp' ! b ! c = Finite (Max (insert 0 (set rs)))))"
      using 1 2 by blast
  qed
  show ?thesis
  proof (intro exI conjI)
    show "bucket_of (frames i) (points j) = Some (int bucket)" using bb(1) ib by simp
    show "bins_of (frames i) (int bucket) = Some (int bins)" using bb(2) ib ibins by simp
    show "run j w = evs @ [ResultReady (request_id j) (path j) x amp']" by (rule r)
    show "nrows amp' = bins" by (rule s(3))
    show "cols amp' = nat (max 1 (channels i))" using s(2) camp by (simp add: chans_def)
    show "\<forall>b<bins. \<forall>c<cols amp'.
               cells amp' ! b ! c
                 = foldl np_maximum (Finite 0) (bin_samples bucket bins b c 0 (concat (map cells chunks)))
             \<and> (list_all is_finite (bin_samples bucket bins b c 0 (concat (map cells chunks))) \<longrightarrow>
                  (\<exists>rs. bin_samples bucket bins b c 0 (concat (map cells chunks)) = map Finite rs
                      \<and> cells amp' ! b ! c = Finite (Max (insert 0 (set rs)))))" by (rule cell)
  qed
qed

text \<open>An example: three stereo frames, decimated to two bins of bucket size two.\<close>

definition demo_chunk :: array2d where
  "demo_chunk = \<lparr>cols = 2, cells = [[Finite (- 1 / 2), Finite (1 / 4)],
                                      [Finite (1 / 3), Finite (- 1 / 8)],
                                      [Finite (- 3 / 4), Finite 1]]\<rparr>"

definition demo_job :: job where
  "demo_job = \<lparr>request_id = 7, path = ''a.wav'', points = 2, emit_progress = False,
                progress_interval = 12 / 100\<rparr>"

definition demo_info :: sf_info where
  "demo_info = \<lparr>frames = 3, samplerate = 10, channels = 2\<rparr>"

definition demo_world :: world where
  "demo_world = \<lparr>info = Inr demo_info, open_error = None, reads = [Inr demo_chunk],
                  monotonic = (\<lambda>k. rat_of_nat k), cancel_at = None\<rparr>"

theorem decimation_peak_hold_witness:
  "info demo_world = Inr demo_info \<and> 0 < frames demo_info \<and> 0 < samplerate demo_info
   \<and> 1 \<le> points demo_job \<and> open_error demo_world = None \<and> cancel_at demo_world = None
   \<and> reads demo_world = map Inr [demo_chunk]
   \<and> wf_array2d demo_chunk \<and> size2d demo_chunk \<noteq> 0 \<and> cols demo_chunk = nat (max 1 (channels demo_info))
   \<and> run demo_job demo_world
       = [ResultReady 7 ''a.wav'' [0, 3 / 10]
            \<lparr>cols = 2, cells = [[Finite (1 / 2), Finite (1 / 4)], [Finite (3 / 4), Finite 1]]\<rparr>]
   \<and> bin_samples 2 2 0 0 0 (cells demo_chunk) = [Finite (1 / 2), Finite (1 / 3)]
   \<and> bin_samples 2 2 1 1 0 (cells demo_chunk) = [Finite 1]"
proof -
  have h1: "info demo_world = Inr demo_info" by (simp add: demo_world_def)
  have h2: "0 < frames demo_info" "0 < samplerate demo_info" by (simp_all add: demo_info_def)
  have h3: "1 \<le> points demo_job" by (simp add: demo_job_def)
  have h4: "open_error demo_world = None" "cancel_at demo_world = None"
    "reads demo_world = map Inr [demo_chunk]" by (simp_all add: demo_world_def)
  have h5: "wf_array2d demo_chunk" "size2d demo_chunk \<noteq> 0"
    "cols demo_chunk = nat (max 1 (channels demo_info))"
    by (simp_all add: demo_chunk_def demo_info_def wf_array2d_def size2d_def nrows_def)
  have h6: "\<forall>ch\<in>set [demo_chunk]. wf_array2d ch \<and> size2d ch \<noteq> 0 \<and> cols ch = nat (max 1 (channels demo_info))"
    using h5 by simp
  have r: "run demo_job demo_world = [ResultReady 7 ''a.wav'' [0, 3 / 10]
            \<lparr>cols = 2, cells = [[Finite (1 / 2), Finite (1 / 4)], [Finite (3 / 4), Finite 1]]\<rparr>]"
    by code_simp
  have b: "bin_samples 2 2 0 0 0 (cells demo_chunk) = [Finite (1 / 2), Finite (1 / 3)]"
    "bin_samples 2 2 1 1 0 (cells demo_chunk) = [Finite 1]"
    by code_simp+
  from decimation_peak_hold [OF h1 h2 h3 h4 h6]
  have "\<exists>evs x amp'. run demo_job demo_world = evs @ [ResultReady (request_id demo_job) (path demo_job) x amp']"
    by blast
  then show ?thesis using h1 h2 h3 h4 h5 r b by simp
qed

subsection \<open>Chunks whose channel count differs from the header's\<close>

lemma array2d_eqI:
  fixes a b :: array2d
  assumes "wf_array2d a" "wf_array2d b" "cols a = cols b" "nrows a = nrows b"
    and "\<forall>i<nrows a. \<forall>c<cols a. cells a ! i ! c = cells b ! i ! c"
  shows "a = b"
proof -
  have "cells a = cells b"
  proof (rule nth_equalityI)
    show "length (cells a) = length (cells b)" using assms(4) by (simp add: nrows_def)
    fix i assume i: "i < length (cells a)"
    then have ia: "i < nrows a" and ib: "i < nrows b" using assms(4) by (simp_all add: nrows_def)
    show "cells a ! i = cells b ! i"
    proof (rule nth_equalityI)
      show "length (cells a ! i) = length (cells b ! i)"
        using wf_array2dD [OF assms(1) ia] wf_array2dD [OF assms(2) ib] assms(3) by simp
      fix c assume "c < length (cells a ! i)"
      then have "c < cols a" using wf_array2dD [OF assms(1) ia] by simp
      then show "cells a ! i ! c = cells b ! i ! c" using assms(5) ia by simp
    qed
  qed
  then show ?thesis using assms(3) by simp
qed

lemma bin_samples_take:
  "c < n \<Longrightarrow> bin_samples bucket bins b c pos (map (take n) frs) = bin_samples bucket bins b c pos frs"
proof (induction frs arbitrary: pos)
  case Nil
  then show ?case by (simp add: bin_samples_def)
next
  case (Cons fr frs)
  then show ?case by (simp add: bin_samples_Cons)
qed

text \<open>
  Claim C10. Whatever the channel count of a chunk, folding it into the accumulator
  raises no \<^verbatim>\<open>IndexError\<close>; the accumulator keeps its shape; its channels from
  \<open>min (cols amp) (cols chunk)\<close> on are left as they were, the channels below are updated
  by peak hold; and the result is the one obtained from the chunk cut down to the
  accumulator's channels, so that the chunk's extra channels play no part.
\<close>

theorem channel_mismatch_safe:
  assumes amp: "wf_array2d amp" and chunk: "wf_array2d chunk"
    and bins: "nrows amp = bins" "1 \<le> bins"
  shows "\<exists>amp'. process_chunk bucket bins amp pos chunk = Some amp'
           \<and> cols amp' = cols amp \<and> nrows amp' = nrows amp \<and> wf_array2d amp'
           \<and> (\<forall>b<bins. \<forall>c<cols amp. min (cols amp) (cols chunk) \<le> c \<longrightarrow>
                 cells amp' ! b ! c = cells amp ! b ! c)
           \<and> (\<forall>b<bins. \<forall>c<min (cols amp) (cols chunk).
                 cells amp' ! b ! c
                   = foldl np_maximum (cells amp ! b ! c) (bin_samples bucket bins b c pos (cells chunk)))
           \<and> process_chunk bucket bins amp pos
                (chunk\<lparr>cols := min (cols amp) (cols chunk), cells := map (take (cols amp)) (cells chunk)\<rparr>)
               = Some amp'"
proof -
  define cut where
    "cut = chunk\<lparr>cols := min (cols amp) (cols chunk), cells := map (take (cols amp)) (cells chunk)\<rparr>"
  have wf_cut: "wf_array2d cut"
    using chunk by (auto simp: cut_def wf_array2d_def list_all_iff min_def)
  from process_chunk_props [OF amp chunk bins, of bucket pos] obtain amp' where
    a: "process_chunk bucket bins amp pos chunk = Some amp'" "cols amp' = cols amp"
       "nrows amp' = bins" "wf_array2d amp'"
       "\<forall>b<bins. \<forall>c<cols amp. cells amp' ! b ! c =
                 (if c < cols chunk
                  then foldl np_maximum (cells amp ! b ! c) (bin_samples bucket bins b c pos (cells chunk))
                  else cells amp ! b ! c)"
    by blast
  from process_chunk_props [OF amp wf_cut bins, of bucket pos] obtain amp'' where
    b: "process_chunk bucket bins amp pos cut = Some amp''" "cols amp'' = cols amp"
       "nrows amp'' = bins" "wf_array2d amp''"
       "\<forall>b<bins. \<forall>c<cols amp. cells amp'' ! b ! c =
                 (if c < cols cut
                  then foldl np_maximum (cells amp ! b ! c) (bin_samples bucket bins b c pos (cells cut))
                  else cells amp ! b ! c)"
    by blast
  have "\<forall>i<nrows amp''. \<forall>c<cols amp''. cells amp'' ! i ! c = cells amp' ! i ! c"
  proof (intro allI impI)
    fix i c assume i: "i < nrows amp''" and c: "c < cols amp''"
    have ib: "i < bins" and ca: "c < cols amp" using i c b(2,3) by simp_all
    have "bin_samples bucket bins i c pos (cells cut) = bin_samples bucket bins i c pos (cells chunk)"
      using ca by (simp add: cut_def bin_samples_take)
    moreover have "c < cols cut \<longleftrightarrow> c < cols chunk" using ca by (simp add: cut_def)
    ultimately show "cells amp'' ! i ! c = cells amp' ! i ! c"
      using a(5) b(5) ib ca by simp
  qed
  then have same: "amp'' = amp'"
    using array2d_eqI [OF b(4) a(4)] a(2,3) b(2,3) by simp
  show ?thesis
  proof (intro exI conjI)
    show "process_chunk bucket bins amp pos chunk = Some amp'" by (rule a(1))
    show "cols amp' = cols amp" by (rule a(2))
    show "nrows amp' = nrows amp" using a(3) bins(1) by simp
    show "wf_array2d amp'" by (rule a(4))
    show "\<forall>b<bins. \<forall>c<cols amp. min (cols amp) (cols chunk) \<le> c \<longrightarrow>
                 cells amp' ! b ! c = cells amp ! b ! c" using a(5) by (auto simp: min_def)
    show "\<forall>b<bins. \<forall>c<min (cols amp) (cols chunk).
                 cells amp' ! b ! c
                   = foldl np_maximum (cells amp ! b ! c) (bin_samples bucket bins b c pos (cells chunk))"
      using a(5) by simp
    show "process_chunk bucket bins amp pos
                (chunk\<lparr>cols := min (cols amp) (cols chunk), cells := map (take (cols amp)) (cells chunk)\<rparr>)
               = Some amp'" using b(1) same by (simp add: cut_def)
  qed
qed

text \<open>An example: a stereo chunk with a NaN and an infinity folded into a mono accumulator,
  and into one of three channels.\<close>

definition wide_chunk :: array2d where
  "wide_chunk = \<lparr>cols = 2, cells = [[Finite (- 1 / 2), Finite (1 / 4)],
                                      [Finite (1 / 3), NaN],
                                      [Finite (- 3 / 4), PosInf]]\<rparr>"

theorem channel_mismatch_safe_witness:
  "wf_array2d (zeros2d 2 1) \<and> wf_array2d wide_chunk \<and> nrows (zeros2d 2 1) = 2 \<and> (1::nat) \<le> 2
   \<and> process_chunk 2 2 (zeros2d 2 1) 0 wide_chunk
       = Some \<lparr>cols = 1, cells = [[Finite (1 / 2)], [Finite (3 / 4)]]\<rparr>
   \<and> process_chunk 2 2 (zeros2d 2 3) 0 wide_chunk
       = Some \<lparr>cols = 3, cells = [[Finite (1 / 2), NaN, Finite 0], [Finite (3 / 4), PosInf, Finite 0]]\<rparr>"
proof -
  have h1: "wf_array2d (zeros2d 2 1)" by (rule zeros2d_props(1))
  have h2: "wf_array2d wide_chunk" by (simp add: wide_chunk_def wf_array2d_def)
  have h3: "nrows (zeros2d 2 1) = 2" by (rule zeros2d_props(2))
  have h4: "(1::nat) \<le> 2" by simp
  note h = h1 h2 h3 h4
  have r: "process_chunk 2 2 (zeros2d 2 1) 0 wide_chunk
       = Some \<lparr>cols = 1, cells = [[Finite (1 / 2)], [Finite (3 / 4)]]\<rparr>"
    "process_chunk 2 2 (zeros2d 2 3) 0 wide_chunk
       = Some \<lparr>cols = 3, cells = [[Finite (1 / 2), NaN, Finite 0], [Finite (3 / 4), PosInf, Finite 0]]\<rparr>"
    by code_simp+
  from channel_mismatch_safe [OF h, of 2 0]
  have "\<exists>amp'. process_chunk 2 2 (zeros2d 2 1) 0 wide_chunk = Some amp'" by blast
  then show ?thesis using h r by simp
qed

section \<open>Properties of the scheduler\<close>

subsection \<open>Arrays delivered for rendering\<close>

text \<open>A finite value of the unit interval; an array of such values; a plot that is
  empty or shows such an array.\<close>

fun in_unit :: "f32 \<Rightarrow> bool" where
  "in_unit (Finite r) = (0 \<le> r \<and> r \<le> 1)"
| "in_unit v = False"

definition unit_array :: "array2d \<Rightarrow> bool" where
  "unit_array a = list_all (list_all in_unit) (cells a)"

definition plot_ok :: "player \<Rightarrow> bool" where
  "plot_ok s = (case plot s of None \<Rightarrow> True | Some (x, a) \<Rightarrow> unit_array a)"

lemma sanitize_in_unit: "in_unit (np_clip (nan_to_num 0 1 0 v) 0 1)"
  by (cases v) (simp_all add: np_clip_def)

lemma align_unit: "unit_array (snd (align_wave_channels x amp))"
  by (simp add: align_wave_channels_def unit_array_def Let_def list_all_iff sanitize_in_unit)

lemma unit_array_take: "unit_array a \<Longrightarrow> unit_array (a\<lparr>cells := take n (cells a)\<rparr>)"
  by (auto simp: unit_array_def list_all_iff dest: in_set_takeD)

lemma plot_ok_clear: "plot_ok (clear_waveform_plot s)"
  by (simp add: plot_ok_def clear_waveform_plot_def)

lemma plot_ok_set: "plot_ok (set_waveform_from_channels s x amp)"
proof (cases "align_wave_channels x amp")
  case (Pair x' a')
  then have "unit_array a'" using align_unit [of x amp] by simp
  then show ?thesis using Pair
    by (simp add: set_waveform_from_channels_def plot_ok_def clear_waveform_plot_def)
qed

lemma plot_ok_label [simp]: "plot_ok (s\<lparr>wave_load_label := l\<rparr>) = plot_ok s"
  by (simp add: plot_ok_def)

lemma plot_ok_render_partial:
  assumes ok: "plot_ok s"
  shows "plot_ok (fst (render_partial_for_path s p sg))"
proof (cases "wave_partial s p")
  case None
  then show ?thesis using ok by (simp add: render_partial_for_path_def)
next
  case (Some t)
  obtain sg' px pamp pfilled ptotal where t: "t = (sg', px, pamp, pfilled, ptotal)"
    by (cases t) auto
  show ?thesis
  proof (cases "sg' = sg")
    case False
    then show ?thesis using ok Some t by (simp add: render_partial_for_path_def)
  next
    case True
    obtain x amp where al: "align_wave_channels px pamp = (x, amp)"
      by (cases "align_wave_channels px pamp")
    have "\<And>c l y a. plot_ok ((if c then clear_waveform_plot s
                                  else set_waveform_from_channels s y a)\<lparr>wave_load_label := l\<rparr>)"
      by (simp add: plot_ok_clear plot_ok_set)
    then show ?thesis
      by (simp only: render_partial_for_path_def Some t True al Let_def option.case prod.case
            simp_thms if_False fst_conv)
  qed
qed


lemma plot_start_preload_worker [simp]: "plot (start_preload_wave_worker s p sg e n) = plot s"
  by (simp add: start_preload_wave_worker_def Let_def)

lemma plot_start_active_worker [simp]: "plot (start_active_wave_worker s p sg e n) = plot s"
  by (simp add: start_active_wave_worker_def Let_def)

lemma plot_pop_preload_queue [simp]: "plot (pop_preload_queue s q) = plot s"
  by (induction q arbitrary: s) (auto simp: Let_def split: option.splits)

lemma plot_start_next_preload [simp]: "plot (start_next_preload s) = plot s"
  by (simp add: start_next_preload_def)

lemma plot_remove_from_preload_queue [simp]: "plot (remove_from_preload_queue s p) = plot s"
  by (simp add: remove_from_preload_queue_def)

lemma plot_ok_cong: "plot s' = plot s \<Longrightarrow> plot_ok s' = plot_ok s"
  by (simp add: plot_ok_def)

lemma plot_ok_finished: "plot_ok s \<Longrightarrow> plot_ok (on_active_wave_finished s rid p x amp)"
proof -
  assume ok: "plot_ok s"
  have "\<And>u v w. plot_ok (s\<lparr>active_wave_failed := u, wave_partial := v, wave_cache := w\<rparr>)"
    using ok by (simp add: plot_ok_def)
  then show ?thesis using ok
    by (auto simp: on_active_wave_finished_def Let_def plot_ok_set split: prod.splits)
qed

lemma plot_ok_progress: "plot_ok s \<Longrightarrow> plot_ok (on_active_wave_progress s hold rid p x amp f t)"
proof -
  assume ok: "plot_ok s"
  have "\<And>u. plot_ok (s\<lparr>wave_partial := u\<rparr>)" using ok by (simp add: plot_ok_def)
  then show ?thesis using ok
    by (auto simp: on_active_wave_progress_def Let_def plot_ok_render_partial split: prod.splits)
qed

lemma plot_ok_load:
  assumes ok: "plot_ok s"
  shows "plot_ok (load_waveform_for_track s p)"
proof -
  define sg where "sg = (case file_signature (os_stat s) p (Some (waveform_points s)) of
                         None \<Rightarrow> [] | Some g \<Rightarrow> g)"
  define s1 where "s1 = remove_from_preload_queue s p"
  have ok1: "plot_ok s1" using ok plot_ok_cong [of s1 s] by (simp add: s1_def)
  have ld: "load_waveform_for_track s p =
     (case cache_get (wave_cache s1) p sg of
           Some cached \<Rightarrow>
             start_next_preload
               ((set_waveform_from_channels s1 (fst (snd cached)) (snd (snd cached)))
                  \<lparr>wave_load_label := Label []\<rparr>)
         | None \<Rightarrow>
             if active_wave_path s1 = p \<and> active_wave_thread s1 \<noteq> None
             then (case render_partial_for_path s1 p sg of
                     (s2, True) \<Rightarrow> s2
                   | (s2, False) \<Rightarrow> (clear_waveform_plot s2)\<lparr>wave_load_label := Label ''Waveform laden...''\<rparr>)
             else if preload_path s1 = p \<and> preload_thread s1 \<noteq> None
             then (case render_partial_for_path
                          (s1\<lparr>preload_thread := map_option (\<lambda>t. t\<lparr>emit_progress := True\<rparr>) (preload_thread s1)\<rparr>)
                          p sg of
                     (s2, True) \<Rightarrow> s2
                   | (s2, False) \<Rightarrow> (clear_waveform_plot s2)\<lparr>wave_load_label := Label ''Waveform laden...''\<rparr>)
             else
               let s2 = (clear_waveform_plot s1)\<lparr>wave_load_label := Label ''Waveform laden: 0%''\<rparr>
               in if active_wave_thread s2 = None
                  then start_active_wave_worker s2 p sg True (waveform_points s2)
                  else if preload_thread s2 = None
                  then start_preload_wave_worker s2 p sg True (waveform_points s2)
                  else (if p \<notin> preload_set s2
                        then s2\<lparr>preload_queue := p # preload_queue s2, preload_set := insert p (preload_set s2)\<rparr>
                        else s2)\<lparr>wave_load_label := Label ''Waveform in wachtrij...''\<rparr>)"
    unfolding load_waveform_for_track_def Let_def sg_def s1_def by (rule refl)
  show ?thesis
  proof (cases "cache_get (wave_cache s1) p sg")
    case (Some cached)
    have "plot_ok (start_next_preload
               ((set_waveform_from_channels s1 (fst (snd cached)) (snd (snd cached)))
                  \<lparr>wave_load_label := Label []\<rparr>))"
      using plot_ok_cong [OF plot_start_next_preload] by (simp add: plot_ok_set)
    then show ?thesis using Some by (simp add: ld)
  next
    case None
    have rp: "\<And>s' s2 b. plot_ok s' \<Longrightarrow> render_partial_for_path s' p sg = (s2, b) \<Longrightarrow>
        plot_ok (case (s2, b) of (s2, True) \<Rightarrow> s2
                   | (s2, False) \<Rightarrow> (clear_waveform_plot s2)\<lparr>wave_load_label := Label ''Waveform laden...''\<rparr>)"
    proof -
      fix s' s2 b assume "plot_ok s'" and r: "render_partial_for_path s' p sg = (s2, b)"
      then have "plot_ok s2" using plot_ok_render_partial [of s' p sg] by simp
      then show "plot_ok (case (s2, b) of (s2, True) \<Rightarrow> s2
                   | (s2, False) \<Rightarrow> (clear_waveform_plot s2)\<lparr>wave_load_label := Label ''Waveform laden...''\<rparr>)"
        by (cases b) (simp_all add: plot_ok_clear)
    qed
    show ?thesis
    proof (cases "active_wave_path s1 = p \<and> active_wave_thread s1 \<noteq> None")
      case True
      obtain s2 b where r: "render_partial_for_path s1 p sg = (s2, b)"
        by (cases "render_partial_for_path s1 p sg")
      have "load_waveform_for_track s p =
            (case render_partial_for_path s1 p sg of
                     (s2, True) \<Rightarrow> s2
                   | (s2, False) \<Rightarrow> (clear_waveform_plot s2)\<lparr>wave_load_label := Label ''Waveform laden...''\<rparr>)"
        by (simp only: ld None option.case if_P [OF True])
      then show ?thesis using rp [OF ok1 r] r by simp
    next
      case nact: False
      show ?thesis
      proof (cases "preload_path s1 = p \<and> preload_thread s1 \<noteq> None")
        case True
        define s1' where "s1' = s1\<lparr>preload_thread := map_option (\<lambda>t. t\<lparr>emit_progress := True\<rparr>) (preload_thread s1)\<rparr>"
        have ok1': "plot_ok s1'" using ok1 by (simp add: s1'_def plot_ok_def)
        obtain s2 b where r: "render_partial_for_path s1' p sg = (s2, b)"
          by (cases "render_partial_for_path s1' p sg")
        have "load_waveform_for_track s p =
            (case render_partial_for_path s1' p sg of
                     (s2, True) \<Rightarrow> s2
                   | (s2, False) \<Rightarrow> (clear_waveform_plot s2)\<lparr>wave_load_label := Label ''Waveform laden...''\<rparr>)"
          by (simp only: ld None option.case if_not_P [OF nact] if_P [OF True] s1'_def)
        then show ?thesis using rp [OF ok1' r] r by simp
      next
        case False
        define s2 where "s2 = (clear_waveform_plot s1)\<lparr>wave_load_label := Label ''Waveform laden: 0%''\<rparr>"
        have p2: "plot s2 = None" by (simp add: s2_def clear_waveform_plot_def)
        have "plot_ok (if active_wave_thread s2 = None
                  then start_active_wave_worker s2 p sg True (waveform_points s2)
                  else if preload_thread s2 = None
                  then start_preload_wave_worker s2 p sg True (waveform_points s2)
                  else (if p \<notin> preload_set s2
                        then s2\<lparr>preload_queue := p # preload_queue s2, preload_set := insert p (preload_set s2)\<rparr>
                        else s2)\<lparr>wave_load_label := Label ''Waveform in wachtrij...''\<rparr>)"
          using p2 by (simp add: plot_ok_def)
        then show ?thesis
          by (simp only: ld None option.case if_not_P [OF nact] if_not_P [OF False] s2_def Let_def)
      qed
    qed
  qed
qed


text \<open>The player as \<^verbatim>\<open>__init__\<close> leaves it, with a playlist and a file system given.\<close>

definition new_player :: "string list \<Rightarrow> (string \<Rightarrow> (int \<times> int) option) \<Rightarrow> player" where
  "new_player ts stat =
     \<lparr>tracks = ts, current_index = None, waveform_points = 4200, os_stat = stat,
      wave_cache = [], wave_partial = Map.empty,
      active_wave_thread = None, active_wave_request_id = 0, active_wave_path = [],
      active_wave_signature = [], active_wave_failed = False,
      preload_thread = None, preload_request_id = 0, preload_path = [], preload_signature = [],
      preload_queue = [], preload_set = {},
      plot = None, wave_load_label = Label [], started = [], cancel_calls = []\<rparr>"

text \<open>
  Claim C3, as amended. Whatever arrays reach \<^verbatim>\<open>_align_wave_channels\<close>, every entry of
  the amplitude array it returns is a finite value in \<open>[0, 1]\<close>; the plot only ever holds
  such arrays, after the final result of a job, after a partial one, and after a load from
  the cache; and an entry is sanitized as follows: NaN and \<open>-\<infinity>\<close> become 0, \<open>+\<infinity>\<close>
  becomes 1, a finite value is clamped to \<open>[0, 1]\<close>.
\<close>

theorem rendered_amplitudes_in_unit_interval:
  "unit_array (snd (align_wave_channels x amp))
   \<and> (plot_ok s \<longrightarrow>
          plot_ok (on_active_wave_finished s rid p x amp)
        \<and> plot_ok (on_active_wave_progress s hold rid p x amp f t)
        \<and> plot_ok (load_waveform_for_track s p))
   \<and> (wf_array2d amp \<longrightarrow> i < min (length x) (nrows amp) \<longrightarrow> c < cols amp \<longrightarrow>
          cells (snd (align_wave_channels x amp)) ! i ! c =
            (case cells amp ! i ! c of
               NaN \<Rightarrow> Finite 0 | NegInf \<Rightarrow> Finite 0 | PosInf \<Rightarrow> Finite 1
             | Finite r \<Rightarrow> Finite (min (max r 0) 1)))"
proof (intro conjI impI)
  show "unit_array (snd (align_wave_channels x amp))" by (rule align_unit)
next
  assume "plot_ok s"
  then show "plot_ok (on_active_wave_finished s rid p x amp)" by (rule plot_ok_finished)
next
  assume "plot_ok s"
  then show "plot_ok (on_active_wave_progress s hold rid p x amp f t)" by (rule plot_ok_progress)
next
  assume "plot_ok s"
  then show "plot_ok (load_waveform_for_track s p)" by (rule plot_ok_load)
next
  assume wf: "wf_array2d amp" and i: "i < min (length x) (nrows amp)" and c: "c < cols amp"
  have nz: "length x \<noteq> 0" "size2d amp \<noteq> 0" using i c by (auto simp: size2d_def)
  have len: "length (cells amp ! i) = cols amp" using wf_array2dD [OF wf] i by simp
  have "cells (snd (align_wave_channels x amp)) ! i ! c = np_clip (nan_to_num 0 1 0 (cells amp ! i ! c)) 0 1"
    using nz i c len by (simp add: align_wave_channels_def Let_def nrows_def)
  then show "cells (snd (align_wave_channels x amp)) ! i ! c =
            (case cells amp ! i ! c of
               NaN \<Rightarrow> Finite 0 | NegInf \<Rightarrow> Finite 0 | PosInf \<Rightarrow> Finite 1
             | Finite r \<Rightarrow> Finite (min (max r 0) 1))"
    by (cases "cells amp ! i ! c") (simp_all add: np_clip_def)
qed

text \<open>An example: the final result of job 1 arrives with a NaN, both infinities and a value
  above 1 in it, while its track is the one displayed.\<close>

definition raw_result :: array2d where
  "raw_result = \<lparr>cols = 2, cells = [[NaN, PosInf], [NegInf, Finite (3 / 2)]]\<rparr>"

definition showing_track :: player where
  "showing_track =
     (new_player [''a.wav''] (\<lambda>p. Some (1000, 5)))
       \<lparr>current_index := Some 0, active_wave_request_id := 1, active_wave_path := ''a.wav'',
        active_wave_signature := ''1000:5|p4200''\<rparr>"

theorem rendered_amplitudes_in_unit_interval_witness:
  "plot_ok showing_track \<and> wf_array2d raw_result
   \<and> (1::nat) < min (length [0, 1 :: rat]) (nrows raw_result) \<and> (1::nat) < cols raw_result
   \<and> plot (on_active_wave_finished showing_track 1 ''a.wav'' [0, 1] raw_result)
       = Some ([0, 1], \<lparr>cols = 2, cells = [[Finite 0, Finite 1], [Finite 0, Finite 1]]\<rparr>)
   \<and> plot_ok (on_active_wave_finished showing_track 1 ''a.wav'' [0, 1] raw_result)"
proof -
  have h1: "plot_ok showing_track" by (simp add: showing_track_def new_player_def plot_ok_def)
  have h2: "wf_array2d raw_result" by (simp add: raw_result_def wf_array2d_def)
  have h3: "(1::nat) < min (length [0, 1 :: rat]) (nrows raw_result)" "(1::nat) < cols raw_result"
    by (simp_all add: raw_result_def nrows_def)
  have r: "plot (on_active_wave_finished showing_track 1 ''a.wav'' [0, 1] raw_result)
       = Some ([0, 1], \<lparr>cols = 2, cells = [[Finite 0, Finite 1], [Finite 0, Finite 1]]\<rparr>)"
    by code_simp
  from rendered_amplitudes_in_unit_interval [of "[0, 1]" raw_result showing_track 1 "''a.wav''"]
  have "plot_ok (on_active_wave_finished showing_track 1 ''a.wav'' [0, 1] raw_result)"
    using h1 by blast
  then show ?thesis using h1 h2 h3 r by simp
qed

text \<open>Claim C3 as stated fails where it says that every non-finite value becomes 0:
  \<open>+\<infinity>\<close>, which the job produces from an infinite sample, is delivered as 1.\<close>

theorem posinf_rendered_as_one:
  "cells (snd (align_wave_channels [0] \<lparr>cols = 1, cells = [[PosInf]]\<rparr>)) = [[Finite 1]]
   \<and> cells (snd (align_wave_channels [0] \<lparr>cols = 1, cells = [[PosInf]]\<rparr>)) \<noteq> [[Finite 0]]
   \<and> process_chunk 1 1 (zeros2d 1 1) 0 \<lparr>cols = 1, cells = [[PosInf]]\<rparr>
       = Some \<lparr>cols = 1, cells = [[PosInf]]\<rparr>"
  by (simp add: align_wave_channels_def size2d_def nrows_def Let_def np_clip_def
        process_chunk_def zeros2d_def bin_indices_def bin_index_def column_def)

subsection \<open>The result cache\<close>

lemma dict_set_length: "length (dict_set kvs k v) = (if k \<in> set (map fst kvs) then length kvs else Suc (length kvs))"
  by (induction kvs) force+

lemma dict_set_keys: "k \<in> set (map fst kvs) \<Longrightarrow> map fst (dict_set kvs k v) = map fst kvs"
  by (induction kvs) force+

lemma dict_set_new: "k \<notin> set (map fst kvs) \<Longrightarrow> dict_set kvs k v = kvs @ [(k, v)]"
  by (induction kvs) force+

lemma dict_set_distinct: "distinct (map fst kvs) \<Longrightarrow> distinct (map fst (dict_set kvs k v))"
  by (cases "k \<in> set (map fst kvs)") (simp_all add: dict_set_keys dict_set_new del: set_map)

lemma dict_pop_distinct: "distinct (map fst kvs) \<Longrightarrow> distinct (map fst (dict_pop kvs k))"
  by (simp add: dict_pop_def distinct_map_filter)

lemma dict_pop_head:
  "distinct (map fst ((k, v) # kvs)) \<Longrightarrow> dict_pop ((k, v) # kvs) k = kvs"
proof -
  assume d: "distinct (map fst ((k, v) # kvs))"
  then have "\<forall>kv\<in>set kvs. fst kv \<noteq> k" by auto
  then have "filter (\<lambda>kv. fst kv \<noteq> k) kvs = kvs" by (simp add: filter_id_conv)
  then show ?thesis by (simp add: dict_pop_def)
qed

lemma dict_pop_head_length: "length (dict_pop ((k, v) # kvs) k) \<le> length kvs"
  by (simp add: dict_pop_def)

lemma cache_store_length:
  assumes "length cache \<le> 40"
  shows "length (cache_store cache p sg x a) \<le> 40"
proof -
  define c where "c = dict_set cache p (sg, x, a)"
  have len: "length c \<le> 41" using assms by (simp add: c_def dict_set_length)
  show ?thesis
  proof (cases "length c > 40")
    case False
    then show ?thesis using len by (simp add: cache_store_def c_def [symmetric] Let_def)
  next
    case True
    then obtain k v rest where c: "c = (k, v) # rest" by (cases c) auto
    have "length (dict_pop c k) \<le> 40" using dict_pop_head_length [of k v rest] len c by simp
    then show ?thesis using True c by (simp add: cache_store_def c_def [symmetric] Let_def)
  qed
qed

lemma cache_store_distinct:
  assumes "distinct (map fst cache)"
  shows "distinct (map fst (cache_store cache p sg x a))"
proof -
  define c where "c = dict_set cache p (sg, x, a)"
  have d: "distinct (map fst c)" using assms by (simp add: c_def dict_set_distinct)
  show ?thesis
  proof (cases c)
    case Nil
    then show ?thesis by (simp add: cache_store_def c_def [symmetric] Let_def)
  next
    case (Cons kv rest)
    obtain k v where kv: "kv = (k, v)" by (cases kv)
    show ?thesis using d Cons kv dict_pop_distinct [OF d, of k]
      by (simp add: cache_store_def c_def [symmetric] Let_def del: set_map)
  qed
qed

lemma cache_store_full:
  assumes d: "distinct (map fst cache)" and full: "length cache = 40" and new: "p \<notin> set (map fst cache)"
  shows "cache_store cache p sg x a = tl cache @ [(p, (sg, x, a))]"
proof -
  obtain k v rest where c: "cache = (k, v) # rest" using full by (cases cache) auto
  have ds: "dict_set cache p (sg, x, a) = (k, v) # rest @ [(p, (sg, x, a))]"
    using dict_set_new [OF new] c by simp
  have "distinct (map fst ((k, v) # rest @ [(p, (sg, x, a))]))"
    using dict_set_distinct [OF d, of p "(sg, x, a)"] ds by simp
  from dict_pop_head [OF this] show ?thesis using ds full c by (simp add: cache_store_def Let_def)
qed

lemma cache_store_room:
  assumes "length cache < 40" and "p \<notin> set (map fst cache)"
  shows "cache_store cache p sg x a = cache @ [(p, (sg, x, a))]"
  using assms by (simp add: cache_store_def dict_set_new Let_def del: set_map)

lemma cache_store_again:
  assumes "length cache \<le> 40" and "p \<in> set (map fst cache)"
  shows "map fst (cache_store cache p sg x a) = map fst cache"
  using assms by (simp add: cache_store_def dict_set_length dict_set_keys Let_def del: set_map)

text \<open>What a hit for \<open>p\<close> means to the preload loop: with the signature it computes for
  \<open>p\<close>, if any, the cache answers.\<close>

definition cached_now :: "player \<Rightarrow> string \<Rightarrow> bool" where
  "cached_now s p =
     (case file_signature (os_stat s) p (Some (waveform_points s)) of
        None \<Rightarrow> True
      | Some sg \<Rightarrow> cache_get (wave_cache s) p sg \<noteq> None)"

lemma pop_preload_queue_effect:
  assumes "cached_now s p"
  shows "\<exists>new. started (pop_preload_queue s q) = started s @ new \<and> length new \<le> 1
           \<and> list_all (\<lambda>j. path j \<noteq> p) new
           \<and> wave_cache (pop_preload_queue s q) = wave_cache s
           \<and> active_wave_thread (pop_preload_queue s q) = active_wave_thread s
           \<and> active_wave_request_id (pop_preload_queue s q) = active_wave_request_id s"
  using assms
proof (induction q arbitrary: s)
  case Nil
  then show ?case by simp
next
  case (Cons a q)
  define s1 where "s1 = s\<lparr>preload_queue := q, preload_set := preload_set s - {a}\<rparr>"
  have f1: "started s1 = started s" "wave_cache s1 = wave_cache s"
    "active_wave_thread s1 = active_wave_thread s" "active_wave_request_id s1 = active_wave_request_id s"
    by (simp_all add: s1_def)
  have c1: "cached_now s1 p" using Cons.prems by (simp add: cached_now_def s1_def cong: option.case_cong)
  note IH = Cons.IH [OF c1]
  have unf: "pop_preload_queue s (a # q) =
     (if a = active_wave_path s1 then pop_preload_queue s1 q
         else (case file_signature (os_stat s1) a (Some (waveform_points s1)) of
           None \<Rightarrow> pop_preload_queue s1 q
         | Some signature \<Rightarrow>
             if cache_get (wave_cache s1) a signature \<noteq> None then pop_preload_queue s1 q
             else start_preload_wave_worker s1 a signature (a = current_track_path s1)
                    (waveform_points s1)))"
    unfolding s1_def by (simp only: pop_preload_queue.simps Let_def)
  show ?case
  proof (cases "a = active_wave_path s1")
    case True
    have e: "pop_preload_queue s (a # q) = pop_preload_queue s1 q"
      by (subst unf) (simp add: True)
    show ?thesis using IH by (simp add: e f1 del: pop_preload_queue.simps)
  next
    case na: False
    show ?thesis
    proof (cases "file_signature (os_stat s1) a (Some (waveform_points s1))")
      case None
      have e: "pop_preload_queue s (a # q) = pop_preload_queue s1 q"
        by (subst unf) (simp add: na None)
      show ?thesis using IH by (simp add: e f1 del: pop_preload_queue.simps)
    next
      case (Some sg)
      show ?thesis
      proof (cases "cache_get (wave_cache s1) a sg")
        case hit: (Some cached)
        have e: "pop_preload_queue s (a # q) = pop_preload_queue s1 q"
          by (subst unf) (simp add: na Some hit)
        show ?thesis using IH by (simp add: e f1 del: pop_preload_queue.simps)
      next
        case cg: None
        have ne: "a \<noteq> p" using cg Some c1 by (auto simp: cached_now_def)
        define s2 where "s2 = start_preload_wave_worker s1 a sg (a = current_track_path s1) (waveform_points s1)"
        have r: "pop_preload_queue s (a # q) = s2"
          by (subst unf) (simp add: na Some cg s2_def)
        have "started s2 = started s @ [\<lparr>request_id = preload_request_id s1 + 1, path = a,
                 points = waveform_points s1, emit_progress = (a = current_track_path s1),
                 progress_interval = 16 / 100\<rparr>]"
          "wave_cache s2 = wave_cache s" "active_wave_thread s2 = active_wave_thread s"
          "active_wave_request_id s2 = active_wave_request_id s"
          using f1 by (simp_all add: s2_def start_preload_wave_worker_def Let_def)
        then show ?thesis using ne by (simp add: r del: pop_preload_queue.simps)
      qed
    qed
  qed
qed

lemma cache_hit_effect:
  assumes hit: "cache_get (wave_cache s) p
                  (case file_signature (os_stat s) p (Some (waveform_points s)) of
                     None \<Rightarrow> [] | Some g \<Rightarrow> g) = Some (sg, cx, ca)"
  shows "plot (load_waveform_for_track s p) = plot (set_waveform_from_channels s cx ca)
       \<and> wave_cache (load_waveform_for_track s p) = wave_cache s
       \<and> active_wave_thread (load_waveform_for_track s p) = active_wave_thread s
       \<and> active_wave_request_id (load_waveform_for_track s p) = active_wave_request_id s
       \<and> (\<exists>new. started (load_waveform_for_track s p) = started s @ new \<and> length new \<le> 1
             \<and> list_all (\<lambda>j. path j \<noteq> p) new)"
proof -
  define s1 where "s1 = remove_from_preload_queue s p"
  have f1: "wave_cache s1 = wave_cache s" "os_stat s1 = os_stat s" "waveform_points s1 = waveform_points s"
    "started s1 = started s" "active_wave_thread s1 = active_wave_thread s"
    "active_wave_request_id s1 = active_wave_request_id s" "plot s1 = plot s"
    by (simp_all add: s1_def remove_from_preload_queue_def)
  define s2 where "s2 = (set_waveform_from_channels s1 cx ca)\<lparr>wave_load_label := Label []\<rparr>"
  have set_f: "\<And>t. wave_cache (set_waveform_from_channels t cx ca) = wave_cache t
             \<and> os_stat (set_waveform_from_channels t cx ca) = os_stat t
             \<and> waveform_points (set_waveform_from_channels t cx ca) = waveform_points t
             \<and> started (set_waveform_from_channels t cx ca) = started t
             \<and> active_wave_thread (set_waveform_from_channels t cx ca) = active_wave_thread t
             \<and> active_wave_request_id (set_waveform_from_channels t cx ca) = active_wave_request_id t
             \<and> preload_thread (set_waveform_from_channels t cx ca) = preload_thread t"
    by (simp add: set_waveform_from_channels_def clear_waveform_plot_def split: prod.splits)
  have plot_eq: "plot s2 = plot (set_waveform_from_channels s cx ca)"
    by (simp add: s2_def set_waveform_from_channels_def clear_waveform_plot_def split: prod.splits)
  have f2: "wave_cache s2 = wave_cache s" "os_stat s2 = os_stat s" "waveform_points s2 = waveform_points s"
    "started s2 = started s" "active_wave_thread s2 = active_wave_thread s"
    "active_wave_request_id s2 = active_wave_request_id s"
    using f1 set_f [of s1] by (simp_all add: s2_def)
  have ld: "load_waveform_for_track s p = start_next_preload s2"
    using hit f1 by (simp add: load_waveform_for_track_def Let_def s1_def [symmetric] s2_def)
  have cn: "cached_now s2 p"
    using hit f2 by (auto simp: cached_now_def split: option.splits)
  show ?thesis
  proof (cases "preload_thread s2 \<noteq> None")
    case True
    then have "load_waveform_for_track s p = s2" using ld by (simp add: start_next_preload_def)
    then show ?thesis using f2 plot_eq by simp
  next
    case False
    then have l2: "load_waveform_for_track s p = pop_preload_queue s2 (preload_queue s2)"
      using ld by (simp add: start_next_preload_def)
    from pop_preload_queue_effect [OF cn, of "preload_queue s2"] obtain new where
      n: "started (pop_preload_queue s2 (preload_queue s2)) = started s2 @ new" "length new \<le> 1"
         "list_all (\<lambda>j. path j \<noteq> p) new"
         "wave_cache (pop_preload_queue s2 (preload_queue s2)) = wave_cache s2"
         "active_wave_thread (pop_preload_queue s2 (preload_queue s2)) = active_wave_thread s2"
         "active_wave_request_id (pop_preload_queue s2 (preload_queue s2)) = active_wave_request_id s2"
      by blast
    have "\<exists>new. started (load_waveform_for_track s p) = started s @ new \<and> length new \<le> 1
             \<and> list_all (\<lambda>j. path j \<noteq> p) new"
      using n(1,2,3) f2(4) l2 by auto
    then show ?thesis using n(4,5,6) f2 plot_eq by (simp add: l2 plot_pop_preload_queue)
  qed
qed


text \<open>
  Claim C9, as amended. A store into a cache of at most 40 entries leaves at most 40. A
  store of a new path into a full cache drops the entry that was inserted first and appends
  the new one; below capacity it only appends; a store for a path already present keeps the
  order of the keys. A lookup is a pure read (\<open>cache_get\<close> returns a value and no cache), so
  a hit does not refresh an entry: the order is that of insertion, not of use. On a hit for
  the signature computed for the path, \<^verbatim>\<open>_load_waveform_for_track\<close> shows the stored
  arrays, leaves cache and active job as they are, and starts no job for that path; it may
  start one preload job, for another path of the queue.
\<close>

theorem wave_cache_bounded_fifo:
  "(length cache \<le> 40 \<longrightarrow> length (cache_store cache p sg x a) \<le> 40)
   \<and> (distinct (map fst cache) \<and> length cache = 40 \<and> p \<notin> set (map fst cache) \<longrightarrow>
        cache_store cache p sg x a = tl cache @ [(p, (sg, x, a))])
   \<and> (length cache < 40 \<and> p \<notin> set (map fst cache) \<longrightarrow>
        cache_store cache p sg x a = cache @ [(p, (sg, x, a))])
   \<and> (length cache \<le> 40 \<and> p \<in> set (map fst cache) \<longrightarrow>
        map fst (cache_store cache p sg x a) = map fst cache)
   \<and> (cache_get (wave_cache s) q
          (case file_signature (os_stat s) q (Some (waveform_points s)) of
             None \<Rightarrow> [] | Some g \<Rightarrow> g) = Some (sg', cx, ca) \<longrightarrow>
        plot (load_waveform_for_track s q) = plot (set_waveform_from_channels s cx ca)
      \<and> wave_cache (load_waveform_for_track s q) = wave_cache s
      \<and> active_wave_thread (load_waveform_for_track s q) = active_wave_thread s
      \<and> active_wave_request_id (load_waveform_for_track s q) = active_wave_request_id s
      \<and> (\<exists>new. started (load_waveform_for_track s q) = started s @ new \<and> length new \<le> 1
             \<and> list_all (\<lambda>j. path j \<noteq> q) new))"
proof (intro conjI impI)
  assume "length cache \<le> 40"
  then show "length (cache_store cache p sg x a) \<le> 40" by (rule cache_store_length)
next
  assume "distinct (map fst cache) \<and> length cache = 40 \<and> p \<notin> set (map fst cache)"
  then show "cache_store cache p sg x a = tl cache @ [(p, (sg, x, a))]"
    using cache_store_full by blast
next
  assume "length cache < 40 \<and> p \<notin> set (map fst cache)"
  then show "cache_store cache p sg x a = cache @ [(p, (sg, x, a))]"
    using cache_store_room by blast
next
  assume "length cache \<le> 40 \<and> p \<in> set (map fst cache)"
  then show "map fst (cache_store cache p sg x a) = map fst cache"
    using cache_store_again by blast
next
  assume hit: "cache_get (wave_cache s) q
          (case file_signature (os_stat s) q (Some (waveform_points s)) of
             None \<Rightarrow> [] | Some g \<Rightarrow> g) = Some (sg', cx, ca)"
  note e = cache_hit_effect [OF hit]
  show "plot (load_waveform_for_track s q) = plot (set_waveform_from_channels s cx ca)"
    using e by (rule conjunct1)
  show "wave_cache (load_waveform_for_track s q) = wave_cache s" using e by blast
  show "active_wave_thread (load_waveform_for_track s q) = active_wave_thread s" using e by blast
  show "active_wave_request_id (load_waveform_for_track s q) = active_wave_request_id s"
    using e by blast
  show "\<exists>new. started (load_waveform_for_track s q) = started s @ new \<and> length new \<le> 1
             \<and> list_all (\<lambda>j. path j \<noteq> q) new" using e by blast
qed

text \<open>Examples: a cache filled by storing the results of forty tracks in turn; and a player
  that shows track \<open>a.wav\<close>, has its waveform cached and has \<open>b.wav\<close> waiting in the
  preload queue.\<close>

definition forty_tracks :: "string list" where
  "forty_tracks = map (\<lambda>n. CHR ''t'' # str_int n) [1..40]"

definition full_cache :: "(string \<times> (string \<times> rat list \<times> array2d)) list" where
  "full_cache = fold (\<lambda>p c. cache_store c p ''sig'' [0] (zeros2d 1 1)) forty_tracks []"

definition cached_player :: player where
  "cached_player =
     (new_player [''a.wav'', ''b.wav''] (\<lambda>p. Some (1000, 5)))
       \<lparr>current_index := Some 0,
        wave_cache := [(''a.wav'', (''1000:5|p4200'', [0, 1], \<lparr>cols = 1, cells = [[Finite (1 / 2)], [Finite 2]]\<rparr>))],
        preload_queue := [''b.wav''], preload_set := {''b.wav''}\<rparr>"

lemma full_cache_keys: "map fst full_cache = forty_tracks"
  by code_simp

theorem wave_cache_bounded_fifo_witness:
  "length full_cache \<le> 40 \<and> distinct (map fst full_cache) \<and> length full_cache = 40
   \<and> ''t41'' \<notin> set (map fst full_cache) \<and> ''t7'' \<in> set (map fst full_cache)
   \<and> length ([] :: (string \<times> (string \<times> rat list \<times> array2d)) list) < 40
   \<and> cache_store full_cache ''t41'' ''sig'' [0] (zeros2d 1 1)
        = tl full_cache @ [(''t41'', (''sig'', [0], zeros2d 1 1))]
   \<and> map fst (cache_store full_cache ''t7'' ''new'' [0] (zeros2d 1 1)) = map fst full_cache
   \<and> cache_get (wave_cache cached_player) ''a.wav'' ''1000:5|p4200''
        = Some (''1000:5|p4200'', [0, 1], \<lparr>cols = 1, cells = [[Finite (1 / 2)], [Finite 2]]\<rparr>)
   \<and> plot (load_waveform_for_track cached_player ''a.wav'')
        = Some ([0, 1], \<lparr>cols = 1, cells = [[Finite (1 / 2)], [Finite 1]]\<rparr>)
   \<and> active_wave_thread (load_waveform_for_track cached_player ''a.wav'') = None"
proof -
  have k: "map fst full_cache = forty_tracks" by (rule full_cache_keys)
  have h1: "length full_cache = 40" "distinct (map fst full_cache)"
    "''t41'' \<notin> set (map fst full_cache)" "''t7'' \<in> set (map fst full_cache)"
    unfolding k by code_simp+
  have h2: "cache_get (wave_cache cached_player) ''a.wav''
              (case file_signature (os_stat cached_player) ''a.wav'' (Some (waveform_points cached_player)) of
                 None \<Rightarrow> [] | Some g \<Rightarrow> g)
            = Some (''1000:5|p4200'', [0, 1], \<lparr>cols = 1, cells = [[Finite (1 / 2)], [Finite 2]]\<rparr>)"
    by code_simp
  have h2': "cache_get (wave_cache cached_player) ''a.wav'' ''1000:5|p4200''
        = Some (''1000:5|p4200'', [0, 1], \<lparr>cols = 1, cells = [[Finite (1 / 2)], [Finite 2]]\<rparr>)"
    by code_simp
  have pl: "plot (set_waveform_from_channels cached_player [0, 1] \<lparr>cols = 1, cells = [[Finite (1 / 2)], [Finite 2]]\<rparr>)
        = Some ([0, 1], \<lparr>cols = 1, cells = [[Finite (1 / 2)], [Finite 1]]\<rparr>)"
    by code_simp
  have at: "active_wave_thread cached_player = None"
    by (simp add: cached_player_def new_player_def)
  note t = wave_cache_bounded_fifo [of full_cache "''t41''" "''sig''" "[0]" "zeros2d 1 1" cached_player "''a.wav''"
              "''1000:5|p4200''" "[0, 1]" "\<lparr>cols = 1, cells = [[Finite (1 / 2)], [Finite 2]]\<rparr>"]
  have r1: "cache_store full_cache ''t41'' ''sig'' [0] (zeros2d 1 1)
        = tl full_cache @ [(''t41'', (''sig'', [0], zeros2d 1 1))]"
    using t h1 by blast
  have r2: "plot (load_waveform_for_track cached_player ''a.wav'')
        = Some ([0, 1], \<lparr>cols = 1, cells = [[Finite (1 / 2)], [Finite 1]]\<rparr>)"
    "active_wave_thread (load_waveform_for_track cached_player ''a.wav'') = None"
    using t h2 pl at by simp_all
  have r3: "map fst (cache_store full_cache ''t7'' ''new'' [0] (zeros2d 1 1)) = map fst full_cache"
    using cache_store_again [of full_cache "''t7''"] h1 by simp
  show ?thesis using h1 h2' r1 r2 r3 by simp
qed

text \<open>
  Claim C9 as stated fails twice. Eviction is not by least recent use: after forty stores a
  hit on \<open>t1\<close> makes it the most recently used entry and \<open>t2\<close> the least recently used
  one, yet the next store evicts \<open>t1\<close> and keeps \<open>t2\<close>. And a hit can start a decode
  job: the load of the cached \<open>a.wav\<close> starts the preload job of \<open>b.wav\<close>.
\<close>

theorem cache_hit_not_lru_counterexample:
  "cache_get full_cache ''t1'' ''sig'' = Some (''sig'', [0], zeros2d 1 1)
   \<and> map_of (cache_store full_cache ''t41'' ''sig'' [0] (zeros2d 1 1)) ''t1'' = None
   \<and> map_of (cache_store full_cache ''t41'' ''sig'' [0] (zeros2d 1 1)) ''t2''
        = Some (''sig'', [0], zeros2d 1 1)
   \<and> started cached_player = []
   \<and> started (load_waveform_for_track cached_player ''a.wav'')
        = [\<lparr>request_id = 1, path = ''b.wav'', points = 4200, emit_progress = False,
             progress_interval = 16 / 100\<rparr>]"
  by code_simp

subsection \<open>Cancellation and stale callbacks\<close>

text \<open>The number of chunks that the loop folds in when it is left alone: the reads before
  the first error or empty chunk.\<close>

fun streamed :: "(exn + array2d) list \<Rightarrow> nat" where
  "streamed [] = 0"
| "streamed (Inl e # rs) = 0"
| "streamed (Inr ch # rs) = (if size2d ch = 0 then 0 else Suc (streamed rs))"

fun wf_read :: "exn + array2d \<Rightarrow> bool" where
  "wf_read (Inl e) = True"
| "wf_read (Inr ch) = wf_array2d ch"

fun is_progress :: "event \<Rightarrow> bool" where
  "is_progress (ProgressReady rid p x a f t) = True"
| "is_progress e = False"

fun is_result :: "event \<Rightarrow> bool" where
  "is_result (ResultReady rid p x a) = True"
| "is_result e = False"

lemma stream_cancelled:
  assumes c: "cancel_at w = Some c" and le: "c \<le> k + Suc (streamed rs)"
    and rs: "list_all wf_read rs" and amp: "wf_array2d amp" "nrows amp = bins" "1 \<le> bins"
  shows "\<exists>evs res kf. stream j w bucket bins x k rs amp pos last_emit = (evs, res, kf)
           \<and> list_all is_progress evs \<and> cancelled w kf"
  using le rs amp
proof (induction rs arbitrary: k amp pos last_emit)
  case Nil
  then show ?case using c by (simp add: cancelled_def)
next
  case (Cons r rs)
  show ?case
  proof (cases "cancelled w k")
    case True
    then have "cancelled w (Suc k)" using c by (simp add: cancelled_def)
    then show ?thesis using True by simp
  next
    case nc: False
    show ?thesis
    proof (cases r)
      case (Inl e)
      then have "c \<le> Suc k" using Cons.prems(1) by simp
      then have "cancelled w (Suc k)" using c by (simp add: cancelled_def)
      then show ?thesis using nc Inl by simp
    next
      case (Inr ch)
      show ?thesis
      proof (cases "size2d ch = 0")
        case True
        then have "c \<le> Suc k" using Cons.prems(1) Inr by simp
        then have "cancelled w (Suc k)" using c by (simp add: cancelled_def)
        then show ?thesis using nc Inr True by simp
      next
        case False
        have wfch: "wf_array2d ch" using Cons.prems(2) Inr by simp
        from process_chunk_props [OF Cons.prems(3) wfch Cons.prems(4,5), of bucket pos]
        obtain amp1 where a1: "process_chunk bucket bins amp pos ch = Some amp1"
          "nrows amp1 = bins" "wf_array2d amp1" by blast
        define pos1 where "pos1 = pos + nrows ch"
        define emit where "emit = (emit_progress j \<and> monotonic w k - last_emit \<ge> progress_interval j)"
        define last1 where "last1 = (if emit then monotonic w k else last_emit)"
        define ev where "ev = (if emit
                         then [ProgressReady (request_id j) (path j) x amp1
                                 (filled_bins bins pos1 bucket) bins]
                         else [])"
        have le1: "c \<le> Suc k + Suc (streamed rs)" using Cons.prems(1) Inr False by simp
        have rs1: "list_all wf_read rs" using Cons.prems(2) by simp
        from Cons.IH [OF le1 rs1 a1(3) a1(2) Cons.prems(5), of pos1 last1]
        obtain evs res kf where
          r: "stream j w bucket bins x (Suc k) rs amp1 pos1 last1 = (evs, res, kf)"
             "list_all is_progress evs" "cancelled w kf" by blast
        have "stream j w bucket bins x k (r # rs) amp pos last_emit = (ev @ evs, res, kf)"
          using nc Inr False a1(1) r(1)
          by (simp add: Let_def pos1_def emit_def last1_def ev_def)
        moreover have "list_all is_progress (ev @ evs)" using r(2) by (simp add: ev_def)
        ultimately show ?thesis using r(3) by blast
      qed
    qed
  qed
qed

lemma run_cancelled:
  assumes i: "info w = Inr i" and F: "0 < frames i" and R: "0 < samplerate i"
    and c: "cancel_at w = Some c" and le: "c \<le> Suc (streamed (reads w))"
    and rs: "list_all wf_read (reads w)"
  shows "list_all (\<lambda>e. \<not> is_result e) (run j w)"
    and "points j \<noteq> 0 \<Longrightarrow> open_error w = None \<Longrightarrow> list_all is_progress (run j w)"
proof -
  define chans where "chans = nat (max 1 (channels i))"
  have nd: "\<not> (frames i \<le> 0 \<or> samplerate i \<le> 0)" using F R by simp
  have ex: "\<And>k e. list_all (\<lambda>e. \<not> is_result e) (on_exception j w k e)"
    by (simp add: on_exception_def)
  have main: "list_all (\<lambda>e. \<not> is_result e) (run j w)
      \<and> (points j \<noteq> 0 \<longrightarrow> open_error w = None \<longrightarrow> list_all is_progress (run j w))"
  proof (cases "bucket_of (frames i) (points j)")
    case None
    then have "run j w = on_exception j w 0 ZeroDivisionError"
      using i nd by (simp add: run_def Let_def)
    moreover have "points j = 0" using None by (simp add: bucket_of_def ceil_div_def split: if_splits)
    ultimately show ?thesis using ex by simp
  next
    case (Some bucket)
    have bpos: "1 \<le> bucket" using Some by (auto simp: bucket_of_def)
    show ?thesis
    proof (cases "bins_of (frames i) bucket")
      case None
      then have "bucket = 0" by (simp add: bins_of_def ceil_div_def split: if_splits)
      then show ?thesis using bpos by simp
    next
      case bins: (Some bins0)
      have b1: "1 \<le> nat bins0" using bins by (auto simp: bins_of_def)
      define x where "x = linspace (rat_of_int (frames i) / rat_of_int (samplerate i)) (nat bins0)"
      define amp where "amp = zeros2d (nat bins0) chans"
      show ?thesis
      proof (cases "open_error w")
        case (Some e)
        then have "run j w = on_exception j w 0 e"
          using i nd \<open>bucket_of (frames i) (points j) = Some bucket\<close> bins
          by (simp add: run_def Let_def)
        then show ?thesis using ex Some by simp
      next
        case None
        have le0: "c \<le> 0 + Suc (streamed (reads w))" using le by simp
        from stream_cancelled [OF c le0 rs zeros2d_props(1) zeros2d_props(2) b1,
            where j = j and bucket = "nat bucket" and x = x and pos = 0 and last_emit = 0 and c1 = chans]
        obtain evs res kf where
          s: "stream j w (nat bucket) (nat bins0) x 0 (reads w) amp 0 0 = (evs, res, kf)"
             "list_all is_progress evs" "cancelled w kf"
          unfolding amp_def by blast
        have "run j w = evs"
          using i nd \<open>bucket_of (frames i) (points j) = Some bucket\<close> bins None s(1,3)
          by (cases res) (simp_all add: run_def Let_def x_def amp_def chans_def on_exception_def)
        moreover have "list_all (\<lambda>e. \<not> is_result e) evs"
          using s(2) by (induction evs) (auto elim: is_progress.elims)
        ultimately show ?thesis using s(2) by simp
      qed
    qed
  qed
  show "list_all (\<lambda>e. \<not> is_result e) (run j w)" using main by simp
  show "points j \<noteq> 0 \<Longrightarrow> open_error w = None \<Longrightarrow> list_all is_progress (run j w)" using main by simp
qed


text \<open>Jobs started as the active job one after the other, each given by path, signature,
  progress flag and point count.\<close>

fun restarts :: "player \<Rightarrow> (string \<times> string \<times> bool \<times> int) list \<Rightarrow> player" where
  "restarts s [] = s"
| "restarts s ((p, sg, e, n) # ps) = restarts (start_active_wave_worker s p sg e n) ps"

lemma restarts_request_id:
  "active_wave_request_id (restarts s ps) = active_wave_request_id s + int (length ps)"
proof (induction ps arbitrary: s)
  case Nil
  then show ?case by simp
next
  case (Cons a ps)
  obtain p sg e n where a: "a = (p, sg, e, n)" by (cases a) auto
  show ?case using Cons.IH [of "start_active_wave_worker s p sg e n"]
    by (simp add: a start_active_wave_worker_def Let_def)
qed

lemma finished_stale:
  "rid \<noteq> active_wave_request_id s \<or> p \<noteq> active_wave_path s \<Longrightarrow>
     on_active_wave_finished s rid p x amp = s"
  by (auto simp: on_active_wave_finished_def)

lemma finished_after_stop:
  assumes "p \<noteq> []"
  shows "on_active_wave_finished (restarts (stop_active_wave_worker s) ps)
           (active_wave_request_id s) p x amp
         = restarts (stop_active_wave_worker s) ps"
proof (cases ps)
  case Nil
  have "active_wave_path (stop_active_wave_worker s) = []" by (simp add: stop_active_wave_worker_def)
  then show ?thesis using assms Nil finished_stale by simp
next
  case (Cons a ps')
  have "active_wave_request_id (stop_active_wave_worker s) = active_wave_request_id s"
    by (simp add: stop_active_wave_worker_def)
  then have "active_wave_request_id (restarts (stop_active_wave_worker s) ps)
               = active_wave_request_id s + int (length ps)"
    by (simp add: restarts_request_id)
  then have "active_wave_request_id s \<noteq> active_wave_request_id (restarts (stop_active_wave_worker s) ps)"
    using Cons by simp
  then show ?thesis by (rule finished_stale [OF disjI1])
qed

text \<open>
  Claim C4. Take a job on a file with frames and a positive sample rate, so that it has
  a streaming loop, and let the cancellation flag be set no later than the job's read of
  the flag that follows the loop (read number \<open>streamed + 1\<close>, the loop making the reads
  \<open>0\<close> to \<open>streamed\<close>). Then the job emits no \<^verbatim>\<open>resultReady\<close>, and if it got as far
  as the loop it emits progress signals only. On the scheduler's side, a
  \<^verbatim>\<open>resultReady\<close> whose request id is not the active one leaves the player as it is:
  nothing is cached and nothing is drawn. So does one that carries the id and the path of a
  job after that job was stopped, however many active jobs were started since.
\<close>

theorem cancelled_job_delivers_no_result:
  "(info w = Inr i \<and> 0 < frames i \<and> 0 < samplerate i
      \<and> cancel_at w = Some c \<and> c \<le> Suc (streamed (reads w)) \<and> list_all wf_read (reads w) \<longrightarrow>
        list_all (\<lambda>e. \<not> is_result e) (run j w)
      \<and> (points j \<noteq> 0 \<and> open_error w = None \<longrightarrow> list_all is_progress (run j w)))
   \<and> (rid \<noteq> active_wave_request_id s \<longrightarrow> on_active_wave_finished s rid p x amp = s)
   \<and> (p \<noteq> [] \<longrightarrow>
        on_active_wave_finished (restarts (stop_active_wave_worker s) ps)
          (active_wave_request_id s) p x amp
        = restarts (stop_active_wave_worker s) ps)"
proof (intro conjI impI)
  assume h: "info w = Inr i \<and> 0 < frames i \<and> 0 < samplerate i
      \<and> cancel_at w = Some c \<and> c \<le> Suc (streamed (reads w)) \<and> list_all wf_read (reads w)"
  then show "list_all (\<lambda>e. \<not> is_result e) (run j w)" using run_cancelled(1) by blast
  assume "points j \<noteq> 0 \<and> open_error w = None"
  then show "list_all is_progress (run j w)" using h run_cancelled(2) by blast
next
  assume "rid \<noteq> active_wave_request_id s"
  then show "on_active_wave_finished s rid p x amp = s" using finished_stale by blast
next
  assume "p \<noteq> []"
  then show "on_active_wave_finished (restarts (stop_active_wave_worker s) ps)
          (active_wave_request_id s) p x amp
        = restarts (stop_active_wave_worker s) ps" by (rule finished_after_stop)
qed

text \<open>An example: the job of the earlier example with progress signals on, cancelled after
  its one chunk; and the player showing \<open>a.wav\<close>, whose job 1 is stopped.\<close>

definition cancelled_world :: world where
  "cancelled_world = demo_world\<lparr>monotonic := (\<lambda>k. rat_of_nat k + 1), cancel_at := Some 1\<rparr>"

theorem cancelled_job_delivers_no_result_witness:
  "info cancelled_world = Inr demo_info \<and> 0 < frames demo_info \<and> 0 < samplerate demo_info
   \<and> cancel_at cancelled_world = Some 1 \<and> (1::nat) \<le> Suc (streamed (reads cancelled_world))
   \<and> list_all wf_read (reads cancelled_world)
   \<and> points (demo_job\<lparr>emit_progress := True\<rparr>) \<noteq> 0 \<and> open_error cancelled_world = None
   \<and> run (demo_job\<lparr>emit_progress := True\<rparr>) cancelled_world
        = [ProgressReady 7 ''a.wav'' [0, 3 / 10]
             \<lparr>cols = 2, cells = [[Finite (1 / 2), Finite (1 / 4)], [Finite (3 / 4), Finite 1]]\<rparr> 2 2]
   \<and> (2::int) \<noteq> active_wave_request_id showing_track \<and> ''a.wav'' \<noteq> []
   \<and> on_active_wave_finished showing_track 2 ''a.wav'' [0, 1] raw_result = showing_track
   \<and> plot (on_active_wave_finished (stop_active_wave_worker showing_track) 1 ''a.wav'' [0, 1] raw_result)
        = None"
proof -
  have h1: "info cancelled_world = Inr demo_info" "0 < frames demo_info" "0 < samplerate demo_info"
    "cancel_at cancelled_world = Some 1" "open_error cancelled_world = None"
    "points (demo_job\<lparr>emit_progress := True\<rparr>) \<noteq> 0"
    by (simp_all add: cancelled_world_def demo_world_def demo_info_def demo_job_def)
  have h2: "(1::nat) \<le> Suc (streamed (reads cancelled_world))" by simp
  have h3: "list_all wf_read (reads cancelled_world)"
    by (simp add: cancelled_world_def demo_world_def demo_chunk_def wf_array2d_def)
  have h4: "(2::int) \<noteq> active_wave_request_id showing_track" "''a.wav'' \<noteq> []"
    by (simp_all add: showing_track_def new_player_def)
  have r: "run (demo_job\<lparr>emit_progress := True\<rparr>) cancelled_world
        = [ProgressReady 7 ''a.wav'' [0, 3 / 10]
             \<lparr>cols = 2, cells = [[Finite (1 / 2), Finite (1 / 4)], [Finite (3 / 4), Finite 1]]\<rparr> 2 2]"
    by code_simp
  note t = cancelled_job_delivers_no_result [of cancelled_world demo_info 1
      "demo_job\<lparr>emit_progress := True\<rparr>" 2 showing_track "''a.wav''" "[0, 1]" raw_result "[]"]
  have r1: "list_all is_progress (run (demo_job\<lparr>emit_progress := True\<rparr>) cancelled_world)"
    using t h1 h2 h3 by blast
  have r2: "on_active_wave_finished showing_track 2 ''a.wav'' [0, 1] raw_result = showing_track"
    using t h4 by blast
  have "on_active_wave_finished (restarts (stop_active_wave_worker showing_track) [])
          (active_wave_request_id showing_track) ''a.wav'' [0, 1] raw_result
        = restarts (stop_active_wave_worker showing_track) []"
    using cancelled_job_delivers_no_result [of cancelled_world demo_info 1
      "demo_job\<lparr>emit_progress := True\<rparr>" 2 showing_track "''a.wav''" "[0, 1]" raw_result "[]"] h4
    by blast
  then have r3: "plot (on_active_wave_finished (stop_active_wave_worker showing_track) 1 ''a.wav'' [0, 1] raw_result)
        = None"
    by (simp add: showing_track_def new_player_def stop_active_wave_worker_def)
  show ?thesis using h1 h2 h3 h4 r r2 r3 by simp
qed

section \<open>Properties of the routing engine\<close>

subsection \<open>Sums and quotients of gains in \<^verbatim>\<open>float32\<close>\<close>

text \<open>Multiples of one half below \<open>2 ^ 23\<close> are \<^verbatim>\<open>float32\<close> numbers.\<close>

lemma float32_half_exact:
  assumes "0 \<le> q" and "q < 2 ^ 23" and "q * 2 = rat_of_int k"
  shows "float32 q = q"
proof (cases "q = 0")
  case True
  then show ?thesis by (simp add: float32_def round_to_def)
next
  case False
  then have q: "0 < q" using assms(1) by simp
  have "q < 2 powi (int 24 - int 1)" using assms(2) by simp
  moreover have "q * 2 ^ 1 = rat_of_int k" using assms(3) by simp
  ultimately show ?thesis unfolding float32_def using q by (intro round_to_dyadic)
qed

lemma sum_list_halves_nonneg:
  fixes xs :: "rat list"
  assumes "\<forall>x\<in>set xs. x = 0 \<or> x = 1 / 2 \<or> x = 1"
  shows "0 \<le> sum_list xs"
  using assms by (intro sum_list_nonneg) auto

lemma sum_list_halves_le_length:
  fixes xs :: "rat list"
  assumes "\<forall>x\<in>set xs. x = 0 \<or> x = 1 / 2 \<or> x = 1"
  shows "sum_list xs \<le> rat_of_nat (length xs)"
  using assms
proof (induction xs)
  case Nil
  then show ?case by simp
next
  case (Cons x xs)
  then have "x \<le> 1" "sum_list xs \<le> rat_of_nat (length xs)" by auto
  then show ?case by simp
qed

lemma np_sum_acc_exact:
  assumes "\<forall>x\<in>set xs. x = 0 \<or> x = 1 / 2 \<or> x = 1"
    and "acc * 2 = rat_of_int k" and "0 \<le> acc" and "acc + sum_list xs < 2 ^ 23"
  shows "foldl (\<lambda>a v. float32 (a + v)) acc xs = acc + sum_list xs"
  using assms
proof (induction xs arbitrary: acc k)
  case Nil
  then show ?case by simp
next
  case (Cons x xs)
  have h: "\<forall>y\<in>set xs. y = 0 \<or> y = 1 / 2 \<or> y = 1" using Cons.prems(1) by simp
  have x: "x = 0 \<or> x = 1 / 2 \<or> x = 1" using Cons.prems(1) by simp
  then obtain d :: int where d: "x * 2 = rat_of_int d" and x0: "0 \<le> x"
  proof -
    have "x * 2 = rat_of_int 0 \<or> x * 2 = rat_of_int 1 \<or> x * 2 = rat_of_int 2" using x by auto
    moreover have "0 \<le> x" using x by auto
    ultimately show ?thesis using that by blast
  qed
  have s: "0 \<le> sum_list xs" using sum_list_halves_nonneg [OF h] .
  have a0: "0 \<le> acc + x" using Cons.prems(3) x0 by simp
  have a2: "(acc + x) * 2 = rat_of_int (k + d)" using Cons.prems(2) d by (simp add: distrib_right)
  have lt: "acc + x + sum_list xs < 2 ^ 23" using Cons.prems(4) by (simp add: add.assoc)
  then have "acc + x < 2 ^ 23" using s by linarith
  then have f: "float32 (acc + x) = acc + x" using float32_half_exact [OF a0 _ a2] by simp
  have "foldl (\<lambda>a v. float32 (a + v)) (acc + x) xs = acc + x + sum_list xs"
    by (rule Cons.IH [OF h a2 a0 lt])
  then show ?case by (simp add: f add.assoc)
qed

lemma np_sum_exact:
  assumes "\<forall>x\<in>set xs. x = 0 \<or> x = 1 / 2 \<or> x = 1" and "sum_list xs < 2 ^ 23"
  shows "np_sum xs = sum_list xs"
  using np_sum_acc_exact [OF assms(1), of 0 0] assms(2) by (simp add: np_sum_def)

text \<open>A rounded non-negative quotient exceeds the exact one by at most the relative error
  \<open>2 powi - 24\<close>.\<close>

lemma float32_error:
  assumes "0 \<le> q"
  shows "0 \<le> float32 q \<and> float32 q \<le> q * (1 + 1 / 2 ^ 24)"
proof (cases "q = 0")
  case True
  then show ?thesis by (simp add: float32_def round_to_def)
next
  case False
  then have "0 < q" using assms by simp
  from round_to_error [OF this, of 24] have "float32 q \<le> q + q / 2 ^ 24" by (simp add: float32_def)
  also have "\<dots> = q * (1 + 1 / 2 ^ 24)" by (simp add: distrib_left)
  finally show ?thesis using round_to_nonneg [OF assms, of 24] by (simp add: float32_def)
qed

subsection \<open>Rows of the runtime matrix\<close>

lemma raw_row_length [simp]: "length (raw_row base mm n src) = n"
  by (simp add: raw_row_def Let_def)

lemma normalize_row_length [simp]: "length (normalize_row row) = length row"
  by (simp add: normalize_row_def Let_def)

lemma set_update_cases:
  assumes "v \<in> set (row[k := x])"
  shows "v = x \<or> v \<in> set row"
  using assms set_update_subset_insert [of row k x] by blast

lemma raw_row_bits: "\<forall>v\<in>set (raw_row base mm n src). v = 0 \<or> v = 1"
proof -
  define row where "row = map (\<lambda>out_idx. if base_checked base (min src (length base - 1)) out_idx
                                          then 1 else (0::rat)) [0..<n]"
  have r: "\<forall>v\<in>set row. v = 0 \<or> v = 1" by (auto simp: row_def)
  have "raw_row base mm n src = row \<or> raw_row base mm n src = row[min src (n - 1) := 1]"
    by (simp add: raw_row_def Let_def row_def)
  moreover have "\<forall>v\<in>set (row[min src (n - 1) := 1]). v = 0 \<or> v = 1"
  proof
    fix v assume "v \<in> set (row[min src (n - 1) := 1])"
    then have "v = 1 \<or> v \<in> set row" by (rule set_update_cases)
    then show "v = 0 \<or> v = 1" using r by blast
  qed
  ultimately show ?thesis using r by metis
qed

text \<open>Outside matrix mode a row of the base matrix has at most two checked cells: one on
  the diagonal or in the last target column, or the two columns of the stereo fold-down.\<close>

lemma base_checked_square:
  assumes "0 < n"
  shows "base_checked (map (\<lambda>r. map (g r) [0..<n]) [0..<n]) r c = (r < n \<and> c < n \<and> g r c \<noteq> 0)"
proof -
  have "[0..<n] = 0 # [1..<n]" using assms by (simp add: upt_conv_Cons)
  then have "map (\<lambda>r. map (g r) [0..<n]) [0..<n]
               = map (g 0) [0..<n] # map (\<lambda>r. map (g r) [0..<n]) [1..<n]"
    by (metis list.simps(9))
  then have "(case map (\<lambda>r. map (g r) [0..<n]) [0..<n] of [] \<Rightarrow> 0 | r # _ \<Rightarrow> length r)
               = length (map (g 0) [0..<n])"
    by (simp only: list.case)
  then have "(case map (\<lambda>r. map (g r) [0..<n]) [0..<n] of [] \<Rightarrow> 0 | r # _ \<Rightarrow> length r) = n"
    by simp
  then show ?thesis by (auto simp: base_checked_def Let_def)
qed

lemma default_checked:
  "base_checked default_routing_matrix r c \<Longrightarrow> c = r"
  unfolding default_routing_matrix_def routing_size_def
  by (subst (asm) base_checked_square) (simp_all split: if_splits)

lemma preset_checked:
  "\<exists>c1 c2. \<forall>c. base_checked (routing_matrix_preset t) r c \<longrightarrow> c = c1 \<or> c = c2"
proof (cases "t \<le> 0")
  case True
  then have "\<forall>c. base_checked (routing_matrix_preset t) r c \<longrightarrow> c = r \<or> c = r"
    using default_checked by (simp add: routing_matrix_preset_def)
  then show ?thesis by blast
next
  case False
  define target where "target = nat (max 1 (min (int routing_size) t))"
  show ?thesis
  proof (cases "target = 2")
    case True
    have p: "routing_matrix_preset t
               = map (\<lambda>src. map (\<lambda>out.
                          if (out = 0 \<and> src \<in> {0, 2, 4, 6, 8, 10})
                             \<or> (out = 1 \<and> src \<in> {1, 2, 5, 7, 9, 11})
                             \<or> (src = 3 \<and> (out = 0 \<or> out = 1))
                          then 1 else 0) [0..<12]) [0..<12]"
      using False True by (simp add: routing_matrix_preset_def Let_def target_def routing_size_def)
    have "\<forall>c. base_checked (routing_matrix_preset t) r c \<longrightarrow> c = 0 \<or> c = 1"
      unfolding p by (subst base_checked_square) (simp_all split: if_splits)
    then show ?thesis by blast
  next
    case ne: False
    have p: "routing_matrix_preset t
               = map (\<lambda>idx. map (\<lambda>out. if out = min idx (target - 1) then 1 else 0) [0..<12]) [0..<12]"
      using False ne by (simp add: routing_matrix_preset_def Let_def target_def routing_size_def)
    have "\<forall>c. base_checked (routing_matrix_preset t) r c \<longrightarrow>
               c = min r (target - 1) \<or> c = min r (target - 1)"
      unfolding p by (subst base_checked_square) (simp_all split: if_splits)
    then show ?thesis by blast
  qed
qed

lemma sum_list_map_le:
  fixes f g :: "'a \<Rightarrow> rat"
  assumes "\<forall>x\<in>set xs. f x \<le> g x"
  shows "sum_list (map f xs) \<le> sum_list (map g xs)"
  using assms by (induction xs) (simp_all add: add_mono)

lemma point_indicator_sum:
  "sum_list (map (\<lambda>c. if c = a then 1 else 0) [0..<n]) = (if a < n then 1 else (0::rat))"
  by (induction n) auto

lemma indicator_sum_le_two:
  assumes "\<forall>c. P c \<longrightarrow> c = c1 \<or> c = c2"
  shows "sum_list (map (\<lambda>c. if P c then 1 else 0) [0..<n]) \<le> (2::rat)"
proof -
  have "\<forall>c\<in>set [0..<n]. (if P c then 1 else (0::rat))
          \<le> (if c = c1 then 1 else 0) + (if c = c2 then 1 else 0)"
    using assms by auto
  then have "sum_list (map (\<lambda>c. if P c then 1 else (0::rat)) [0..<n])
          \<le> sum_list (map (\<lambda>c. (if c = c1 then 1 else 0) + (if c = c2 then 1 else 0)) [0..<n])"
    by (rule sum_list_map_le)
  also have "\<dots> = sum_list (map (\<lambda>c. if c = c1 then 1 else 0) [0..<n])
                 + sum_list (map (\<lambda>c. if c = c2 then 1 else 0) [0..<n])"
    by (rule sum_list_addf)
  also have "\<dots> \<le> 2" by (simp only: point_indicator_sum) simp
  finally show ?thesis .
qed

lemma sum_list_zeros_update:
  fixes row :: "rat list"
  assumes "\<forall>v\<in>set row. v = 0"
  shows "sum_list (row[k := 1]) \<le> 1"
  using assms
proof (induction row arbitrary: k)
  case Nil
  then show ?case by simp
next
  case (Cons a row)
  have z: "sum_list row = 0" using Cons.prems by (induction row) auto
  show ?case
  proof (cases k)
    case 0
    then show ?thesis using z by simp
  next
    case (Suc k')
    then show ?thesis using Cons.IH [of k'] Cons.prems by simp
  qed
qed

lemma raw_row_sum_le_two:
  assumes "\<exists>c1 c2. \<forall>c. base_checked base (min src (length base - 1)) c \<longrightarrow> c = c1 \<or> c = c2"
  shows "sum_list (raw_row base False n src) \<le> 2"
proof -
  define P where "P = base_checked base (min src (length base - 1))"
  define row where "row = map (\<lambda>c. if P c then 1 else (0::rat)) [0..<n]"
  from assms obtain c1 c2 where c: "\<forall>c. P c \<longrightarrow> c = c1 \<or> c = c2" unfolding P_def by blast
  show ?thesis
  proof (cases "list_ex P [0..<n]")
    case True
    then have "raw_row base False n src = row"
      by (simp add: raw_row_def Let_def row_def P_def)
    then show ?thesis using indicator_sum_le_two [OF c, of n] by (simp add: row_def)
  next
    case False
    then have z: "\<forall>v\<in>set row. v = 0" by (auto simp: row_def list_ex_iff)
    have "raw_row base False n src = row[min src (n - 1) := 1]"
      using False by (simp add: raw_row_def Let_def row_def P_def)
    then show ?thesis using sum_list_zeros_update [OF z, of "min src (n - 1)"] by simp
  qed
qed

lemma sum_list_bits_nat:
  fixes row :: "rat list"
  assumes "\<forall>v\<in>set row. v = 0 \<or> v = 1"
  shows "\<exists>k::nat. sum_list row = rat_of_nat k"
  using assms
proof (induction row)
  case Nil
  then show ?case by simp
next
  case (Cons a row)
  then obtain k :: nat where k: "sum_list row = rat_of_nat k" by auto
  have "a = 0 \<or> a = 1" using Cons.prems by simp
  then have "sum_list (a # row) = rat_of_nat k \<or> sum_list (a # row) = rat_of_nat (Suc k)"
    using k by auto
  then show ?case by blast
qed

lemma float32_one_half: "float32 (1 / 2) = 1 / 2"
  by code_simp

lemma float32_zero [simp]: "float32 0 = 0"
  by (simp add: float32_def round_to_def)

lemma normalize_row_halves:
  assumes bits: "\<forall>v\<in>set row. v = 0 \<or> v = 1" and le: "sum_list row \<le> 2"
  shows "\<forall>v\<in>set (normalize_row row). v = 0 \<or> v = 1 / 2 \<or> v = 1"
proof -
  have ab: "map abs row = row" using bits by (induction row) auto
  have h: "\<forall>v\<in>set row. v = 0 \<or> v = 1 / 2 \<or> v = 1" using bits by auto
  have s: "np_sum (map abs row) = sum_list row"
    unfolding ab using le by (intro np_sum_exact [OF h]) simp
  show ?thesis
  proof (cases "sum_list row > 1")
    case False
    then show ?thesis using h s by (simp add: normalize_row_def Let_def)
  next
    case True
    from sum_list_bits_nat [OF bits] obtain k :: nat where k: "sum_list row = rat_of_nat k" by blast
    have "1 < k" "k \<le> 2" using True le unfolding k by simp_all
    then have "k = 2" by simp
    then have two: "sum_list row = 2" using k by simp
    have "normalize_row row = map (\<lambda>v. float32 (v / 2)) row"
      using s two by (simp add: normalize_row_def Let_def)
    then show ?thesis using bits float32_one_half by auto
  qed
qed

subsection \<open>Columns of the runtime matrix\<close>

text \<open>A column of a matrix given by its rows, and what the column loop does to the column
  it is at.\<close>

definition matrix_column :: "rat list list \<Rightarrow> nat \<Rightarrow> rat list" where
  "matrix_column m j = map (\<lambda>row. row ! j) m"

definition normalized_column :: "rat list \<Rightarrow> rat list" where
  "normalized_column c =
     (let col_sum = np_sum (map abs c) in if col_sum > 1 then map (\<lambda>v. float32 (v / col_sum)) c else c)"

lemma normalize_column_length [simp]: "length (normalize_column m j) = length m"
  by (simp add: normalize_column_def Let_def)

lemma normalize_column_wide:
  assumes "\<forall>row\<in>set m. length row = n"
  shows "\<forall>row\<in>set (normalize_column m j). length row = n"
  using assms by (auto simp: normalize_column_def Let_def)

lemma normalize_column_self:
  assumes "\<forall>row\<in>set m. j < length row"
  shows "matrix_column (normalize_column m j) j = normalized_column (matrix_column m j)"
  using assms
  by (simp add: normalize_column_def normalized_column_def matrix_column_def col_abs_sum_def
                Let_def comp_def)

lemma normalize_column_other:
  assumes "j' \<noteq> j"
  shows "matrix_column (normalize_column m j) j' = matrix_column m j'"
  using assms by (simp add: normalize_column_def matrix_column_def Let_def)

lemma fold_normalize_column:
  assumes "\<forall>row\<in>set m. length row = n" and "\<forall>j\<in>set js. j < n" and "distinct js"
  shows "(\<forall>row\<in>set (fold (\<lambda>j m'. normalize_column m' j) js m). length row = n)
       \<and> (\<forall>j. matrix_column (fold (\<lambda>j m'. normalize_column m' j) js m) j
                = (if j \<in> set js then normalized_column (matrix_column m j) else matrix_column m j))"
  using assms
proof (induction js arbitrary: m)
  case Nil
  then show ?case by simp
next
  case (Cons a js)
  define m1 where "m1 = normalize_column m a"
  have w1: "\<forall>row\<in>set m1. length row = n"
    using normalize_column_wide [OF Cons.prems(1)] by (simp add: m1_def)
  have a: "\<forall>row\<in>set m. a < length row" using Cons.prems(1,2) by simp
  have js: "\<forall>j\<in>set js. j < n" "distinct js" "a \<notin> set js" using Cons.prems(2,3) by simp_all
  note IH = Cons.IH [OF w1 js(1,2)]
  have "\<forall>j. matrix_column (fold (\<lambda>j m'. normalize_column m' j) js m1) j
                = (if j \<in> set (a # js) then normalized_column (matrix_column m j) else matrix_column m j)"
  proof
    fix j
    show "matrix_column (fold (\<lambda>j m'. normalize_column m' j) js m1) j
                = (if j \<in> set (a # js) then normalized_column (matrix_column m j) else matrix_column m j)"
    proof (cases "j = a")
      case True
      then have "matrix_column (fold (\<lambda>j m'. normalize_column m' j) js m1) j = matrix_column m1 a"
        using IH js(3) by simp
      then show ?thesis using True normalize_column_self [OF a] by (simp add: m1_def)
    next
      case False
      then have "matrix_column m1 j = matrix_column m j"
        using normalize_column_other [of j a m] by (simp add: m1_def)
      then show ?thesis using IH False by simp
    qed
  qed
  then show ?case using IH by (simp add: m1_def)
qed

lemma fold_normalize_column_length:
  "length (fold (\<lambda>j m'. normalize_column m' j) js m) = length m"
  by (induction js arbitrary: m) simp_all

lemma sum_list_map_times:
  fixes k :: rat
  shows "sum_list (map (\<lambda>v. v * k) xs) = sum_list xs * k"
  by (induction xs) (simp_all add: distrib_right)

text \<open>The column loop on a column of gains 0, 1/2 and 1: the sum of the column is exact,
  so that the rounding of the quotients alone can lift the new sum above 1.\<close>

lemma normalized_column_sum:
  assumes h: "\<forall>v\<in>set c. v = 0 \<or> v = 1 / 2 \<or> v = 1" and len: "length c < 2 ^ 23"
  shows "(\<forall>v\<in>set (normalized_column c). 0 \<le> v)
       \<and> sum_list (normalized_column c) \<le> 1 + 1 / 2 ^ 24"
proof -
  have ab: "map abs c = c" using h by (induction c) auto
  have "sum_list c \<le> rat_of_nat (length c)" by (rule sum_list_halves_le_length [OF h])
  moreover have "rat_of_nat (length c) < rat_of_nat (2 ^ 23)" using len by (simp only: of_nat_less_iff)
  ultimately have "sum_list c < 2 ^ 23" by simp
  then have s: "np_sum (map abs c) = sum_list c" unfolding ab by (rule np_sum_exact [OF h])
  define S where "S = sum_list c"
  have nn: "\<forall>v\<in>set c. 0 \<le> v" using h by auto
  show ?thesis
  proof (cases "S > 1")
    case False
    then have "normalized_column c = c" using s by (simp add: normalized_column_def Let_def S_def)
    then show ?thesis using False nn by (simp add: S_def)
  next
    case True
    have n: "normalized_column c = map (\<lambda>v. float32 (v / S)) c"
      using True s by (simp add: normalized_column_def Let_def S_def)
    have q: "\<forall>v\<in>set c. 0 \<le> v / S" using nn True by simp
    have e: "\<forall>v\<in>set c. float32 (v / S) \<le> v * ((1 + 1 / 2 ^ 24) / S)"
    proof
      fix v assume "v \<in> set c"
      then have "float32 (v / S) \<le> (v / S) * (1 + 1 / 2 ^ 24)" using q float32_error by blast
      then show "float32 (v / S) \<le> v * ((1 + 1 / 2 ^ 24) / S)" by simp
    qed
    have "sum_list (map (\<lambda>v. float32 (v / S)) c) \<le> sum_list (map (\<lambda>v. v * ((1 + 1 / 2 ^ 24) / S)) c)"
      by (rule sum_list_map_le [OF e])
    also have "\<dots> = S * ((1 + 1 / 2 ^ 24) / S)" by (simp only: sum_list_map_times S_def)
    also have "\<dots> = 1 + 1 / 2 ^ 24" using True by simp
    finally have "sum_list (normalized_column c) \<le> 1 + 1 / 2 ^ 24" by (simp only: n)
    moreover have "\<forall>v\<in>set (normalized_column c). 0 \<le> v"
      unfolding n using q float32_error by auto
    ultimately show ?thesis by simp
  qed
qed

lemma base_checked_two:
  "\<exists>c1 c2. \<forall>c. base_checked
            (if audio_routing_mode cfg = ''auto'' then default_routing_matrix
             else routing_matrix_preset (routing_target_channels_of_mode (audio_routing_mode cfg)))
            r c \<longrightarrow> c = c1 \<or> c = c2"
proof (cases "audio_routing_mode cfg = ''auto''")
  case True
  have "\<forall>c. base_checked default_routing_matrix r c \<longrightarrow> c = r \<or> c = r"
    using default_checked by blast
  then have "\<exists>c1 c2. \<forall>c. base_checked default_routing_matrix r c \<longrightarrow> c = c1 \<or> c = c2" by blast
  then show ?thesis by (simp add: True)
next
  case False
  show ?thesis using preset_checked by (simp only: False if_False)
qed

text \<open>
  Claim C5, as amended. With explicit matrix mode disabled, whatever the routing mode, for
  every \<open>source_channels\<close> from 1 to below \<open>2 ^ 23\<close> and every \<open>output_channels \<ge> 1\<close>,
  the runtime matrix has \<open>source_channels\<close> rows of \<open>output_channels\<close> gains, none
  negative, and the gains of every output column sum to at most \<open>1 + 2 powi - 24\<close>: the
  column sums are 1 up to the rounding of the \<^verbatim>\<open>float32\<close> quotients.
\<close>

theorem runtime_matrix_column_gain_bounded:
  assumes mm: "\<not> audio_matrix_enabled cfg"
    and sc: "1 \<le> source_channels" and sc23: "source_channels < 2 ^ 23"
    and oc: "1 \<le> output_channels"
    and out: "out_idx < nat output_channels"
  shows "length (build_runtime_routing_matrix cfg source_channels output_channels) = nat source_channels
       \<and> (\<forall>row\<in>set (build_runtime_routing_matrix cfg source_channels output_channels).
             length row = nat output_channels \<and> (\<forall>v\<in>set row. 0 \<le> v))
       \<and> sum_list (map (\<lambda>row. row ! out_idx)
                      (build_runtime_routing_matrix cfg source_channels output_channels))
            \<le> 1 + 1 / 2 ^ 24"
proof -
  define n where "n = nat (max 1 output_channels)"
  define base where "base = (if audio_routing_mode cfg = ''auto'' then default_routing_matrix
                  else routing_matrix_preset (routing_target_channels_of_mode (audio_routing_mode cfg)))"
  define raw where "raw = map (raw_row base False n) [0..<nat (max 1 source_channels)]"
  define m0 where "m0 = map normalize_row raw"
  define M where "M = fold (\<lambda>j m'. normalize_column m' j) [0..<n] m0"
  have b: "build_runtime_routing_matrix cfg source_channels output_channels = M"
    using mm
    by (simp add: build_runtime_routing_matrix_def Let_def n_def base_def raw_def m0_def M_def
                  normalize_columns_def)
  have n: "n = nat output_channels" using oc by (simp add: n_def)
  have len0: "length m0 = nat source_channels" using sc by (simp add: m0_def raw_def)
  have w0: "\<forall>row\<in>set m0. length row = n" by (auto simp: m0_def raw_def)
  have h0: "\<forall>row\<in>set m0. \<forall>v\<in>set row. v = 0 \<or> v = 1 / 2 \<or> v = 1"
  proof
    fix row assume "row \<in> set m0"
    then obtain src where row: "row = normalize_row (raw_row base False n src)"
      by (auto simp: m0_def raw_def)
    have "sum_list (raw_row base False n src) \<le> 2"
      unfolding base_def by (rule raw_row_sum_le_two [OF base_checked_two])
    then show "\<forall>v\<in>set row. v = 0 \<or> v = 1 / 2 \<or> v = 1"
      unfolding row by (rule normalize_row_halves [OF raw_row_bits])
  qed
  have js: "\<forall>j\<in>set [0..<n]. j < n" "distinct [0..<n]" by simp_all
  from fold_normalize_column [OF w0 js]
  have wide: "\<forall>row\<in>set M. length row = n"
    and cols: "\<And>j. j < n \<Longrightarrow> matrix_column M j = normalized_column (matrix_column m0 j)"
    by (simp_all add: M_def)
  have len: "length M = nat source_channels"
    by (simp add: M_def fold_normalize_column_length len0)
  have col: "(\<forall>v\<in>set (matrix_column M j). 0 \<le> v) \<and> sum_list (matrix_column M j) \<le> 1 + 1 / 2 ^ 24"
    if j: "j < n" for j
  proof -
    have h: "\<forall>v\<in>set (matrix_column m0 j). v = 0 \<or> v = 1 / 2 \<or> v = 1"
    proof
      fix v assume "v \<in> set (matrix_column m0 j)"
      then obtain row where r: "row \<in> set m0" "v = row ! j" by (auto simp: matrix_column_def)
      then have "v \<in> set row" using w0 j by simp
      then show "v = 0 \<or> v = 1 / 2 \<or> v = 1" using h0 r(1) by blast
    qed
    have "int (length (matrix_column m0 j)) < 2 ^ 23"
      using sc sc23 by (simp add: matrix_column_def len0)
    then have "int (length (matrix_column m0 j)) < int (2 ^ 23)" by simp
    then have l: "length (matrix_column m0 j) < 2 ^ 23" by (simp only: of_nat_less_iff)
    show ?thesis unfolding cols [OF j] by (rule normalized_column_sum [OF h l])
  qed
  have pos: "\<forall>row\<in>set M. \<forall>v\<in>set row. 0 \<le> v"
  proof (intro ballI)
    fix row v assume row: "row \<in> set M" and v: "v \<in> set row"
    from v obtain j where j: "j < length row" "v = row ! j" by (auto simp: in_set_conv_nth)
    then have "j < n" using wide row by simp
    moreover have "v \<in> set (matrix_column M j)" using row j(2) by (auto simp: matrix_column_def)
    ultimately show "0 \<le> v" using col by blast
  qed
  have "sum_list (map (\<lambda>row. row ! out_idx) M) \<le> 1 + 1 / 2 ^ 24"
    using col [of out_idx] out n by (simp add: matrix_column_def)
  then show ?thesis using len wide pos n by (simp add: b)
qed

text \<open>An example: a six-channel source folded down by the stereo preset. The rows of
  sources 2 and 3 feed both outputs and are halved; each column then holds the gains
  1, 1/2, 1/2, 1, which sum to 3, and is divided by 3.\<close>

definition stereo_preset :: routing_config where
  "stereo_preset = \<lparr>audio_matrix_enabled = False, audio_routing_mode = ''stereo'',
                     audio_routing_matrix = default_routing_matrix\<rparr>"

lemma stereo_six_to_two:
  "build_runtime_routing_matrix stereo_preset 6 2
     = [[11184811 / 33554432, 0], [0, 11184811 / 33554432],
        [11184811 / 67108864, 11184811 / 67108864], [11184811 / 67108864, 11184811 / 67108864],
        [11184811 / 33554432, 0], [0, 11184811 / 33554432]]"
  by code_simp

theorem runtime_matrix_column_gain_bounded_witness:
  "\<not> audio_matrix_enabled stereo_preset \<and> (1::int) \<le> 6 \<and> (6::int) < 2 ^ 23 \<and> (1::int) \<le> 2
   \<and> (0::nat) < nat 2
   \<and> length (build_runtime_routing_matrix stereo_preset 6 2) = 6
   \<and> sum_list (map (\<lambda>row. row ! 0) (build_runtime_routing_matrix stereo_preset 6 2))
        \<le> 1 + 1 / 2 ^ 24"
proof -
  have h: "\<not> audio_matrix_enabled stereo_preset" by (simp add: stereo_preset_def)
  have "length (build_runtime_routing_matrix stereo_preset 6 2) = nat 6
      \<and> sum_list (map (\<lambda>row. row ! 0) (build_runtime_routing_matrix stereo_preset 6 2))
           \<le> 1 + 1 / 2 ^ 24"
    using runtime_matrix_column_gain_bounded [OF h, of 6 2 0] by simp
  then show ?thesis using h by simp
qed

text \<open>
  Claim C5 as stated fails by one rounding error. In the example above the exact gains
  would be 1/3 and 1/6; the nearest \<^verbatim>\<open>float32\<close> numbers are both larger, and the stored
  gains of either output column sum to \<open>1 + 2 powi - 25\<close>, which exceeds 1.
\<close>

theorem column_gain_exceeds_one:
  "\<not> audio_matrix_enabled stereo_preset
   \<and> float32 (1 / 3) = 11184811 / 33554432 \<and> float32 ((1 / 2) / 3) = 11184811 / 67108864
   \<and> sum_list (map (\<lambda>row. row ! 0) (build_runtime_routing_matrix stereo_preset 6 2)) = 1 + 1 / 2 ^ 25
   \<and> sum_list (map (\<lambda>row. row ! 1) (build_runtime_routing_matrix stereo_preset 6 2)) = 1 + 1 / 2 ^ 25
   \<and> \<not> sum_list (map (\<lambda>row. row ! 0) (build_runtime_routing_matrix stereo_preset 6 2)) \<le> 1"
proof -
  have h: "\<not> audio_matrix_enabled stereo_preset" by (simp add: stereo_preset_def)
  have f: "float32 (1 / 3) = 11184811 / 33554432" "float32 ((1 / 2) / 3) = 11184811 / 67108864"
    by code_simp+
  show ?thesis unfolding stereo_six_to_two using h f by simp
qed

subsection \<open>Trimming the routed-file cache\<close>

lemma first_evictable_split:
  "first_evictable env st c = Some (k, p) \<Longrightarrow>
     \<exists>pre post. c = pre @ (k, p) # post \<and> (\<forall>e\<in>set pre. is_current_source env st (snd e))
        \<and> \<not> is_current_source env st p"
proof (induction c)
  case Nil
  then show ?case by simp
next
  case (Cons a c)
  obtain k' p' where a: "a = (k', p')" by (cases a)
  show ?case
  proof (cases "is_current_source env st p'")
    case True
    then have "first_evictable env st c = Some (k, p)" using Cons.prems a by simp
    from Cons.IH [OF this] obtain pre post where
      "c = pre @ (k, p) # post" "\<forall>e\<in>set pre. is_current_source env st (snd e)"
      "\<not> is_current_source env st p" by blast
    then have "a # c = (a # pre) @ (k, p) # post \<and> (\<forall>e\<in>set (a # pre). is_current_source env st (snd e))
        \<and> \<not> is_current_source env st p" using True a by simp
    then show ?thesis by blast
  next
    case False
    then have "a = (k, p)" using Cons.prems a by simp
    then have "a # c = [] @ (k, p) # c \<and> (\<forall>e\<in>set []. is_current_source env st (snd e))
        \<and> \<not> is_current_source env st p" using False a by simp
    then show ?thesis by blast
  qed
qed

lemma first_evictable_None:
  "first_evictable env st c = None \<Longrightarrow> \<forall>e\<in>set c. is_current_source env st (snd e)"
  by (induction c) (force split: if_splits)+

lemma is_current_source_cong:
  "current_source st' = current_source st \<Longrightarrow> is_current_source env st' = is_current_source env st"
  by (auto simp: is_current_source_def fun_eq_iff)

lemma dict_pop_middle:
  assumes "distinct (map fst (pre @ (k, p) # post))"
  shows "dict_pop (pre @ (k, p) # post) k = pre @ post"
proof -
  have "\<forall>e\<in>set pre. fst e \<noteq> k" "\<forall>e\<in>set post. fst e \<noteq> k" using assms by auto
  then have "filter (\<lambda>kv. fst kv \<noteq> k) pre = pre" "filter (\<lambda>kv. fst kv \<noteq> k) post = post"
    by (simp_all add: filter_id_conv)
  then show ?thesis by (simp add: dict_pop_def)
qed

lemma evict_prefix_step:
  assumes pre: "\<forall>e\<in>set pre. P e" and x: "\<not> P x"
  shows "\<exists>i'. filter P (take i (pre @ post)) @ drop i (pre @ post)
              = filter P (take i' (pre @ x # post)) @ drop i' (pre @ x # post)"
proof (cases "i \<le> length pre")
  case True
  have "\<forall>e\<in>set (take i pre). P e" using pre by (auto dest: in_set_takeD)
  then have "filter P (take i pre) = take i pre" by (simp add: filter_id_conv)
  then have "filter P (take i (pre @ post)) @ drop i (pre @ post) = take i pre @ drop i pre @ post"
    using True by simp
  also have "\<dots> = pre @ post" by (simp only: append_assoc [symmetric] append_take_drop_id)
  finally have l: "filter P (take i (pre @ post)) @ drop i (pre @ post) = pre @ post" .
  have "filter P pre = pre" using pre by (simp add: filter_id_conv)
  then have "filter P (take (Suc (length pre)) (pre @ x # post)) @ drop (Suc (length pre)) (pre @ x # post)
        = pre @ post" using x by simp
  then show ?thesis using l by metis
next
  case False
  then obtain d where d: "i = length pre + d" "0 < d" by (metis less_imp_add_positive not_le)
  have fp: "filter P pre = pre" using pre by (simp add: filter_id_conv)
  have l: "filter P (take i (pre @ post)) @ drop i (pre @ post) = pre @ filter P (take d post) @ drop d post"
    using d fp by simp
  have "filter P (take (Suc i) (pre @ x # post)) @ drop (Suc i) (pre @ x # post)
        = pre @ filter P (take d post) @ drop d post"
    using d fp x by simp
  then show ?thesis using l by metis
qed

lemma prefix_filtered_subset:
  "set (filter P (take i c) @ drop i c) \<subseteq> set c"
  by (auto dest: in_set_takeD in_set_dropD)

lemma prefix_filtered_keeps:
  assumes "e \<in> set c" and "P e"
  shows "e \<in> set (filter P (take i c) @ drop i c)"
proof -
  have "e \<in> set (take i c) \<or> e \<in> set (drop i c)"
    using assms(1) by (metis Un_iff append_take_drop_id set_append)
  then show ?thesis using assms(2) by auto
qed

lemma trim_loop_props:
  assumes "distinct (map fst (routed_audio_cache st))"
  shows "current_source (trim_loop env n st) = current_source st
       \<and> distinct (map fst (routed_audio_cache (trim_loop env n st)))
       \<and> (\<exists>i. routed_audio_cache (trim_loop env n st)
                = filter (\<lambda>e. is_current_source env st (snd e)) (take i (routed_audio_cache st))
                  @ drop i (routed_audio_cache st))
       \<and> files (trim_loop env n st) \<subseteq> files st
       \<and> (\<forall>p\<in>files st - files (trim_loop env n st).
             \<exists>k. (k, p) \<in> set (routed_audio_cache st)
                \<and> (k, p) \<notin> set (routed_audio_cache (trim_loop env n st))
                \<and> \<not> is_current_source env st p)
       \<and> (length (routed_audio_cache (trim_loop env n st)) \<le> n
            \<or> (\<forall>e\<in>set (routed_audio_cache (trim_loop env n st)). is_current_source env st (snd e)))"
  using assms
proof (induction env n st rule: trim_loop.induct)
  case (1 env n st)
  define c where "c = routed_audio_cache st"
  let ?P = "\<lambda>e. is_current_source env st (snd e)"
  have id0: "\<exists>i. c = filter ?P (take i c) @ drop i c" by (rule exI [of _ 0]) simp
  show ?case
  proof (cases "length c > n")
    case False
    then have t: "trim_loop env n st = st" by (subst trim_loop.simps) (simp add: c_def)
    show ?thesis unfolding t using "1.prems" False id0 unfolding c_def by auto
  next
    case big: True
    show ?thesis
    proof (cases "first_evictable env st c")
      case None
      then have t: "trim_loop env n st = st" using big by (subst trim_loop.simps) (simp add: c_def)
      have "\<forall>e\<in>set c. ?P e" using first_evictable_None [OF None] .
      then show ?thesis unfolding t using "1.prems" id0 unfolding c_def by auto
    next
      case (Some kp)
      obtain k p where kp: "kp = (k, p)" by (cases kp)
      define st1 where "st1 = evict env st k p"
      have t: "trim_loop env n st = trim_loop env n st1"
        using big Some kp by (subst trim_loop.simps) (simp add: c_def st1_def)
      from first_evictable_split [of env st c k p] Some kp obtain pre post where
        sp: "c = pre @ (k, p) # post" "\<forall>e\<in>set pre. ?P e" "\<not> is_current_source env st p"
        by auto
      have dc: "distinct (map fst (pre @ (k, p) # post))" using "1.prems" sp(1) by (simp add: c_def)
      have c1: "routed_audio_cache st1 = pre @ post"
        using dict_pop_middle [OF dc] sp(1) by (simp add: st1_def evict_def c_def)
      have cur1: "is_current_source env st1 = is_current_source env st"
        by (rule is_current_source_cong) (simp add: st1_def evict_def)
      have d1: "distinct (map fst (routed_audio_cache st1))" using dc c1 by simp
      have big': "n < length (routed_audio_cache st)" using big by (simp add: c_def)
      have some': "first_evictable env st (routed_audio_cache st) = Some kp" using Some by (simp add: c_def)
      have d1': "distinct (map fst (routed_audio_cache (evict env st k p)))"
        using d1 by (simp add: st1_def)
      note IH = "1.IH" [OF big' some' kp [symmetric] d1', folded st1_def]
      define st' where "st' = trim_loop env n st1"
      have IH': "current_source st' = current_source st1
       \<and> distinct (map fst (routed_audio_cache st'))
       \<and> (\<exists>i. routed_audio_cache st' = filter ?P (take i (pre @ post)) @ drop i (pre @ post))
       \<and> files st' \<subseteq> files st1
       \<and> (\<forall>p'\<in>files st1 - files st'.
             \<exists>k'. (k', p') \<in> set (pre @ post) \<and> (k', p') \<notin> set (routed_audio_cache st')
                \<and> \<not> is_current_source env st p')
       \<and> (length (routed_audio_cache st') \<le> n
            \<or> (\<forall>e\<in>set (routed_audio_cache st'). ?P e))"
        using IH unfolding st'_def c1 cur1 .
      have ih1: "current_source st' = current_source st1" using IH' by (rule conjunct1)
      have ih2: "distinct (map fst (routed_audio_cache st'))"
        using IH' by (elim conjE)
      have ih3: "\<exists>i. routed_audio_cache st' = filter ?P (take i (pre @ post)) @ drop i (pre @ post)"
        using IH' by (elim conjE)
      have ih4: "files st' \<subseteq> files st1" using IH' by (elim conjE)
      have ih5: "\<forall>p'\<in>files st1 - files st'.
             \<exists>k'. (k', p') \<in> set (pre @ post) \<and> (k', p') \<notin> set (routed_audio_cache st')
                \<and> \<not> is_current_source env st p'"
        using IH' by (elim conjE)
      have ih6: "length (routed_audio_cache st') \<le> n
            \<or> (\<forall>e\<in>set (routed_audio_cache st'). ?P e)"
        using IH' by (elim conjE)
      have f1: "files st1 \<subseteq> files st" "files st - files st1 \<subseteq> {p}"
        by (auto simp: st1_def evict_def)
      have s1: "current_source st1 = current_source st" by (simp add: st1_def evict_def)
      obtain i where i: "routed_audio_cache st' = filter ?P (take i (pre @ post)) @ drop i (pre @ post)"
        using ih3 by blast
      from evict_prefix_step [of pre ?P "(k, p)" i post] sp(2,3) obtain i' where
        i': "routed_audio_cache st' = filter ?P (take i' c) @ drop i' c"
        using i sp(1) by auto
      have sub: "set (routed_audio_cache st') \<subseteq> set (pre @ post)"
        unfolding i by (rule prefix_filtered_subset)
      have "k \<notin> fst ` set (pre @ post)" using dc by auto
      then have notin: "(k, p) \<notin> set (pre @ post)" by (metis fst_conv image_eqI)
      have g5: "\<forall>p'\<in>files st - files st'.
             \<exists>k'. (k', p') \<in> set c \<and> (k', p') \<notin> set (routed_audio_cache st')
                \<and> \<not> is_current_source env st p'"
      proof
        fix p' assume p': "p' \<in> files st - files st'"
        show "\<exists>k'. (k', p') \<in> set c \<and> (k', p') \<notin> set (routed_audio_cache st')
                \<and> \<not> is_current_source env st p'"
        proof (cases "p' \<in> files st1")
          case True
          then have "p' \<in> files st1 - files st'" using p' by simp
          then obtain k' where "(k', p') \<in> set (pre @ post)" "(k', p') \<notin> set (routed_audio_cache st')"
            "\<not> is_current_source env st p'" using ih5 by blast
          then show ?thesis using sp(1) by auto
        next
          case False
          then have "p' = p" using p' f1(2) by auto
          moreover have "(k, p) \<in> set c" using sp(1) by simp
          moreover have "(k, p) \<notin> set (routed_audio_cache st')" using sub notin by blast
          ultimately show ?thesis using sp(3) by blast
        qed
      qed
      have g1: "current_source st' = current_source st" using ih1 s1 by simp
      have g3: "\<exists>i. routed_audio_cache st' = filter ?P (take i c) @ drop i c" using i' by (rule exI)
      have g4: "files st' \<subseteq> files st" using ih4 f1(1) by (rule subset_trans)
      show ?thesis
        unfolding t st'_def [symmetric] c_def [symmetric]
        using g1 ih2 g3 g4 g5 ih6 by (intro conjI)
    qed
  qed
qed


text \<open>
  Claim C6. Trimming the routed-file cache, whose keys are distinct as in any dict, keeps
  every entry whose path is that of the loaded playback source and deletes no file at
  such a path. The files it deletes are files of entries it removed, none of them the
  loaded source. What it removes are the oldest entries: the cache that remains is the old
  one with all entries but those of the loaded source dropped from some front part
  (\<open>take i\<close>), the rest (\<open>drop i\<close>) untouched. It stops at the capacity, or when only
  entries of the loaded source are left.
\<close>

theorem trim_never_evicts_current_source:
  assumes "distinct (map fst (routed_audio_cache st))"
  shows "(\<forall>e\<in>set (routed_audio_cache st). is_current_source env st (snd e) \<longrightarrow>
            e \<in> set (routed_audio_cache (trim_routed_audio_cache env n st)))
       \<and> (\<forall>p\<in>files st. is_current_source env st p \<longrightarrow> p \<in> files (trim_routed_audio_cache env n st))
       \<and> files (trim_routed_audio_cache env n st) \<subseteq> files st
       \<and> (\<forall>p\<in>files st - files (trim_routed_audio_cache env n st).
             \<exists>k. (k, p) \<in> set (routed_audio_cache st)
                \<and> (k, p) \<notin> set (routed_audio_cache (trim_routed_audio_cache env n st))
                \<and> \<not> is_current_source env st p)
       \<and> (\<exists>i. routed_audio_cache (trim_routed_audio_cache env n st)
                = filter (\<lambda>e. is_current_source env st (snd e)) (take i (routed_audio_cache st))
                  @ drop i (routed_audio_cache st))
       \<and> (length (routed_audio_cache (trim_routed_audio_cache env n st)) \<le> nat (max 1 n)
            \<or> (\<forall>e\<in>set (routed_audio_cache (trim_routed_audio_cache env n st)).
                   is_current_source env st (snd e)))"
proof -
  define m where "m = nat (if n < 1 then 1 else n)"
  define st' where "st' = trim_loop env m st"
  have t: "trim_routed_audio_cache env n st = st'" by (simp add: trim_routed_audio_cache_def m_def st'_def)
  have m: "m = nat (max 1 n)" by (simp add: m_def max_def)
  note p = trim_loop_props [OF assms, of env m, folded st'_def]
  have p3: "\<exists>i. routed_audio_cache st'
                = filter (\<lambda>e. is_current_source env st (snd e)) (take i (routed_audio_cache st))
                  @ drop i (routed_audio_cache st)" using p by (elim conjE)
  have p4: "files st' \<subseteq> files st" using p by (elim conjE)
  have p5: "\<forall>p\<in>files st - files st'.
             \<exists>k. (k, p) \<in> set (routed_audio_cache st)
                \<and> (k, p) \<notin> set (routed_audio_cache st')
                \<and> \<not> is_current_source env st p" using p by (elim conjE)
  have p6: "length (routed_audio_cache st') \<le> m
            \<or> (\<forall>e\<in>set (routed_audio_cache st'). is_current_source env st (snd e))"
    using p by (elim conjE)
  have g1: "\<forall>e\<in>set (routed_audio_cache st). is_current_source env st (snd e) \<longrightarrow>
            e \<in> set (routed_audio_cache st')"
  proof (intro ballI impI)
    fix e assume e: "e \<in> set (routed_audio_cache st)" "is_current_source env st (snd e)"
    obtain i where i: "routed_audio_cache st'
                = filter (\<lambda>e. is_current_source env st (snd e)) (take i (routed_audio_cache st))
                  @ drop i (routed_audio_cache st)" using p3 by blast
    show "e \<in> set (routed_audio_cache st')"
      unfolding i using e by (rule prefix_filtered_keeps)
  qed
  have g2: "\<forall>p\<in>files st. is_current_source env st p \<longrightarrow> p \<in> files st'"
  proof (intro ballI impI)
    fix q assume q: "q \<in> files st" "is_current_source env st q"
    show "q \<in> files st'"
    proof (rule ccontr)
      assume "q \<notin> files st'"
      then have "q \<in> files st - files st'" using q(1) by simp
      then have "\<not> is_current_source env st q" using p5 by blast
      then show False using q(2) by simp
    qed
  qed
  show ?thesis unfolding t using g1 g2 p4 p5 p3 p6 unfolding m by (intro conjI)
qed

text \<open>An example: three routed files, the second one loaded, trimmed down to one entry.\<close>

definition plain_env :: routing_env where
  "plain_env = \<lparr>abspath = (\<lambda>p. p), remove_fails = (\<lambda>p. False), probe = (\<lambda>p. None),
                 stat_of = (\<lambda>p. None), effective_output_channels = (\<lambda>cfg n. n),
                 sha1_hex = (\<lambda>s. s), tobytes = (\<lambda>m. []),
                 routed_audio_dir = ''/tmp/AudioPlayer/routed'', render = (\<lambda>p q. Rendered)\<rparr>"

definition three_routed :: routing_state where
  "three_routed = \<lparr>routed_audio_cache = [(''k1'', ''/r/k1.wav''), (''k2'', ''/r/k2.wav''), (''k3'', ''/r/k3.wav'')],
                    session_routed_files = {''/r/k1.wav'', ''/r/k2.wav'', ''/r/k3.wav''},
                    files = {''/r/k1.wav'', ''/r/k2.wav'', ''/r/k3.wav'', ''/music/a.wav''},
                    current_source = ''/r/k2.wav''\<rparr>"

theorem trim_never_evicts_current_source_witness:
  "distinct (map fst (routed_audio_cache three_routed))
   \<and> is_current_source plain_env three_routed ''/r/k2.wav''
   \<and> routed_audio_cache (trim_routed_audio_cache plain_env 1 three_routed) = [(''k2'', ''/r/k2.wav'')]
   \<and> files (trim_routed_audio_cache plain_env 1 three_routed) = {''/r/k2.wav'', ''/music/a.wav''}"
proof -
  have h: "distinct (map fst (routed_audio_cache three_routed))" by (simp add: three_routed_def)
  have c: "is_current_source plain_env three_routed ''/r/k2.wav''"
    by (simp add: is_current_source_def plain_env_def three_routed_def)
  have r: "routed_audio_cache (trim_routed_audio_cache plain_env 1 three_routed) = [(''k2'', ''/r/k2.wav'')]"
    "files (trim_routed_audio_cache plain_env 1 three_routed) = {''/r/k2.wav'', ''/music/a.wav''}"
    by code_simp+
  have "files (trim_routed_audio_cache plain_env 1 three_routed) \<subseteq> files three_routed"
    using trim_never_evicts_current_source [OF h, of plain_env 1] by (elim conjE)
  then show ?thesis using h c r by simp
qed

subsection \<open>Failures while routing\<close>

text \<open>The key under which \<^verbatim>\<open>_resolve_playback_source\<close> looks a source up.\<close>

definition resolve_key :: "routing_env \<Rightarrow> routing_config \<Rightarrow> string \<Rightarrow> sf_info \<Rightarrow> string" where
  "resolve_key env cfg source_path i =
     cache_key env
       (case file_signature (stat_of env) source_path None of None \<Rightarrow> source_path | Some sg \<Rightarrow> sg)
       cfg (max 1 (channels i)) (effective_output_channels env cfg (max 1 (channels i)))"

lemma resolve_reaches_render:
  assumes "routing_requires_processing cfg" and "probe env source_path = Some i"
    and "map_of (routed_audio_cache st) (resolve_key env cfg source_path i) = None
         \<or> (\<exists>p. map_of (routed_audio_cache st) (resolve_key env cfg source_path i) = Some p \<and> p \<notin> files st)"
    and "routed_path_of env (resolve_key env cfg source_path i) \<notin> files st"
  shows "resolve_playback_source env cfg st source_path
           = render_routed env st source_path (resolve_key env cfg source_path i)"
proof -
  define key where "key = resolve_key env cfg source_path i"
  define sc where "sc = max 1 (channels i)"
  have na: "\<not> (\<not> audio_matrix_enabled cfg \<and> audio_routing_mode cfg = ''auto''
                \<and> effective_output_channels env cfg sc = sc
                \<and> is_identity_routing (build_runtime_routing_matrix cfg sc (effective_output_channels env cfg sc)))"
    using assms(1) by (auto simp: routing_requires_processing_def)
  have miss: "\<not> ((case map_of (routed_audio_cache st) key of None \<Rightarrow> [] | Some p \<Rightarrow> p) \<noteq> []
               \<and> (case map_of (routed_audio_cache st) key of None \<Rightarrow> [] | Some p \<Rightarrow> p) \<in> files st)"
    using assms(3) unfolding key_def by auto
  have absent: "\<not> routed_path_of env key \<in> files st" using assms(4) by (simp add: key_def)
  have nn: "\<not> \<not> routing_requires_processing cfg" using assms(1) by simp
  have "resolve_playback_source env cfg st source_path =
     (if \<not> audio_matrix_enabled cfg \<and> audio_routing_mode cfg = ''auto''
                \<and> effective_output_channels env cfg sc = sc
                \<and> is_identity_routing (build_runtime_routing_matrix cfg sc (effective_output_channels env cfg sc))
      then (source_path, st)
      else if (case map_of (routed_audio_cache st) key of None \<Rightarrow> [] | Some p \<Rightarrow> p) \<noteq> []
               \<and> (case map_of (routed_audio_cache st) key of None \<Rightarrow> [] | Some p \<Rightarrow> p) \<in> files st
           then (case map_of (routed_audio_cache st) key of None \<Rightarrow> [] | Some p \<Rightarrow> p, st)
           else if routed_path_of env key \<in> files st
                then (routed_path_of env key, remember_routed env st key (routed_path_of env key))
                else render_routed env st source_path key)"
    unfolding resolve_playback_source_def Let_def key_def resolve_key_def sc_def
    by (simp only: if_not_P [OF nn] assms(2) option.case)
  then have "resolve_playback_source env cfg st source_path = render_routed env st source_path key"
    by (simp only: if_not_P [OF na] if_not_P [OF miss] if_not_P [OF absent])
  then show ?thesis unfolding key_def .
qed

lemma render_routed_error:
  assumes "render env source_path (tmp_path_of env key) = Render_error created"
  shows "fst (render_routed env st source_path key) = source_path"
    and "routed_audio_cache (snd (render_routed env st source_path key)) = routed_audio_cache st"
    and "session_routed_files (snd (render_routed env st source_path key)) = session_routed_files st"
    and "current_source (snd (render_routed env st source_path key)) = current_source st"
    and "files (snd (render_routed env st source_path key)) - {tmp_path_of env key}
           = files st - {tmp_path_of env key}"
    and "\<not> remove_fails env (tmp_path_of env key) \<Longrightarrow>
           tmp_path_of env key \<notin> files (snd (render_routed env st source_path key))"
  using assms by (auto simp: render_routed_def Let_def)


text \<open>
  Claim C7, as amended. When the header probe fails, the source path is returned and
  nothing changes. When the rendering of a routed file is reached (routing is on, the probe
  succeeded, the cache has no entry with an existing file, no routed file is on disk) and
  fails, at whatever point, the source path is returned, cache and session set are left
  as they were, and no file other than the temporary one is touched; the temporary file is
  gone afterwards unless removing it fails, a failure which the handler swallows.
\<close>

theorem routing_failure_falls_back:
  "(probe env source_path = None \<longrightarrow>
      resolve_playback_source env cfg st source_path = (source_path, st))
   \<and> (routing_requires_processing cfg \<and> probe env source_path = Some i
        \<and> (map_of (routed_audio_cache st) (resolve_key env cfg source_path i) = None
             \<or> (\<exists>p. map_of (routed_audio_cache st) (resolve_key env cfg source_path i) = Some p
                    \<and> p \<notin> files st))
        \<and> routed_path_of env (resolve_key env cfg source_path i) \<notin> files st
        \<and> render env source_path (tmp_path_of env (resolve_key env cfg source_path i))
              = Render_error created \<longrightarrow>
          fst (resolve_playback_source env cfg st source_path) = source_path
        \<and> routed_audio_cache (snd (resolve_playback_source env cfg st source_path)) = routed_audio_cache st
        \<and> session_routed_files (snd (resolve_playback_source env cfg st source_path))
              = session_routed_files st
        \<and> files (snd (resolve_playback_source env cfg st source_path))
              - {tmp_path_of env (resolve_key env cfg source_path i)}
            = files st - {tmp_path_of env (resolve_key env cfg source_path i)}
        \<and> (\<not> remove_fails env (tmp_path_of env (resolve_key env cfg source_path i)) \<longrightarrow>
              tmp_path_of env (resolve_key env cfg source_path i)
                \<notin> files (snd (resolve_playback_source env cfg st source_path))))"
proof (intro conjI impI)
  assume "probe env source_path = None"
  then show "resolve_playback_source env cfg st source_path = (source_path, st)"
    by (simp add: resolve_playback_source_def)
next
  assume h: "routing_requires_processing cfg \<and> probe env source_path = Some i
        \<and> (map_of (routed_audio_cache st) (resolve_key env cfg source_path i) = None
             \<or> (\<exists>p. map_of (routed_audio_cache st) (resolve_key env cfg source_path i) = Some p
                    \<and> p \<notin> files st))
        \<and> routed_path_of env (resolve_key env cfg source_path i) \<notin> files st
        \<and> render env source_path (tmp_path_of env (resolve_key env cfg source_path i))
              = Render_error created"
  then have r: "resolve_playback_source env cfg st source_path
           = render_routed env st source_path (resolve_key env cfg source_path i)"
    using resolve_reaches_render by blast
  have e: "render env source_path (tmp_path_of env (resolve_key env cfg source_path i))
              = Render_error created" using h by blast
  show "fst (resolve_playback_source env cfg st source_path) = source_path"
    unfolding r by (rule render_routed_error(1) [OF e])
  show "routed_audio_cache (snd (resolve_playback_source env cfg st source_path)) = routed_audio_cache st"
    unfolding r by (rule render_routed_error(2) [OF e])
  show "session_routed_files (snd (resolve_playback_source env cfg st source_path))
              = session_routed_files st"
    unfolding r by (rule render_routed_error(3) [OF e])
  show "files (snd (resolve_playback_source env cfg st source_path))
              - {tmp_path_of env (resolve_key env cfg source_path i)}
            = files st - {tmp_path_of env (resolve_key env cfg source_path i)}"
    unfolding r by (rule render_routed_error(5) [OF e])
  assume "\<not> remove_fails env (tmp_path_of env (resolve_key env cfg source_path i))"
  then show "tmp_path_of env (resolve_key env cfg source_path i)
                \<notin> files (snd (resolve_playback_source env cfg st source_path))"
    unfolding r by (rule render_routed_error(6) [OF e])
qed

text \<open>Examples: a six-channel file routed by the stereo preset to a two-channel device,
  with nothing cached, where the rendering breaks off after the temporary file was
  created; the digest is a stand-in that returns its input. In the second environment the
  temporary file cannot be removed either.\<close>

definition six_channels :: sf_info where
  "six_channels = \<lparr>frames = 48000, samplerate = 48000, channels = 6\<rparr>"

definition failing_env :: routing_env where
  "failing_env = plain_env\<lparr>probe := (\<lambda>p. Some six_channels), effective_output_channels := (\<lambda>cfg n. 2),
                             render := (\<lambda>p q. Render_error True)\<rparr>"

definition stuck_env :: routing_env where
  "stuck_env = failing_env\<lparr>remove_fails := (\<lambda>p. True)\<rparr>"

definition nothing_routed :: routing_state where
  "nothing_routed = \<lparr>routed_audio_cache = [], session_routed_files = {},
                      files = {''/music/a.wav''}, current_source = []\<rparr>"

theorem routing_failure_falls_back_witness:
  "routing_requires_processing stereo_preset \<and> probe failing_env ''/music/a.wav'' = Some six_channels
   \<and> map_of (routed_audio_cache nothing_routed)
        (resolve_key failing_env stereo_preset ''/music/a.wav'' six_channels) = None
   \<and> routed_path_of failing_env (resolve_key failing_env stereo_preset ''/music/a.wav'' six_channels)
        \<notin> files nothing_routed
   \<and> render failing_env ''/music/a.wav''
        (tmp_path_of failing_env (resolve_key failing_env stereo_preset ''/music/a.wav'' six_channels))
        = Render_error True
   \<and> \<not> remove_fails failing_env
          (tmp_path_of failing_env (resolve_key failing_env stereo_preset ''/music/a.wav'' six_channels))
   \<and> fst (resolve_playback_source failing_env stereo_preset nothing_routed ''/music/a.wav'') = ''/music/a.wav''
   \<and> files (snd (resolve_playback_source failing_env stereo_preset nothing_routed ''/music/a.wav''))
        = {''/music/a.wav''}"
proof -
  have h1: "routing_requires_processing stereo_preset"
    by (simp add: routing_requires_processing_def stereo_preset_def)
  have h2: "probe failing_env ''/music/a.wav'' = Some six_channels"
    by (simp add: failing_env_def plain_env_def)
  have h3: "map_of (routed_audio_cache nothing_routed)
        (resolve_key failing_env stereo_preset ''/music/a.wav'' six_channels) = None"
    by (simp add: nothing_routed_def)
  have h4: "routed_path_of failing_env (resolve_key failing_env stereo_preset ''/music/a.wav'' six_channels)
        \<notin> files nothing_routed"
    by (simp add: nothing_routed_def routed_path_of_def failing_env_def plain_env_def)
  have h5: "render failing_env ''/music/a.wav''
        (tmp_path_of failing_env (resolve_key failing_env stereo_preset ''/music/a.wav'' six_channels))
        = Render_error True"
    by (simp add: failing_env_def plain_env_def)
  have h6: "\<not> remove_fails failing_env
          (tmp_path_of failing_env (resolve_key failing_env stereo_preset ''/music/a.wav'' six_channels))"
    by (simp add: failing_env_def plain_env_def)
  note t = routing_failure_falls_back [of failing_env "''/music/a.wav''" stereo_preset nothing_routed
             six_channels True]
  have r1: "fst (resolve_playback_source failing_env stereo_preset nothing_routed ''/music/a.wav'') = ''/music/a.wav''"
    using t h1 h2 h3 h4 h5 by blast
  have r2: "files (snd (resolve_playback_source failing_env stereo_preset nothing_routed ''/music/a.wav''))
              - {tmp_path_of failing_env (resolve_key failing_env stereo_preset ''/music/a.wav'' six_channels)}
            = files nothing_routed
              - {tmp_path_of failing_env (resolve_key failing_env stereo_preset ''/music/a.wav'' six_channels)}"
    using t h1 h2 h3 h4 h5 by blast
  have r3: "tmp_path_of failing_env (resolve_key failing_env stereo_preset ''/music/a.wav'' six_channels)
                \<notin> files (snd (resolve_playback_source failing_env stereo_preset nothing_routed ''/music/a.wav''))"
    using t h1 h2 h3 h4 h5 h6 by blast
  have nt: "tmp_path_of failing_env (resolve_key failing_env stereo_preset ''/music/a.wav'' six_channels)
              \<noteq> ''/music/a.wav''"
    by (simp add: tmp_path_of_def failing_env_def plain_env_def)
  have r4: "files (snd (resolve_playback_source failing_env stereo_preset nothing_routed ''/music/a.wav''))
        = {''/music/a.wav''}"
    using r2 r3 nt by (auto simp: nothing_routed_def)
  show ?thesis using h1 h2 h3 h4 h5 h6 r1 r4 by simp
qed

text \<open>Claim C7 as stated fails where it says that the temporary file is deleted: when
  removing it fails too, the source path is still returned, but the temporary file stays.\<close>

theorem temp_file_left_behind:
  "fst (resolve_playback_source stuck_env stereo_preset nothing_routed ''/music/a.wav'') = ''/music/a.wav''
   \<and> tmp_path_of stuck_env (resolve_key stuck_env stereo_preset ''/music/a.wav'' six_channels)
        \<in> files (snd (resolve_playback_source stuck_env stereo_preset nothing_routed ''/music/a.wav''))
   \<and> tmp_path_of stuck_env (resolve_key stuck_env stereo_preset ''/music/a.wav'' six_channels)
        \<notin> files nothing_routed"
proof -
  have h1: "routing_requires_processing stereo_preset"
    by (simp add: routing_requires_processing_def stereo_preset_def)
  have h2: "probe stuck_env ''/music/a.wav'' = Some six_channels"
    by (simp add: stuck_env_def failing_env_def plain_env_def)
  have h3: "map_of (routed_audio_cache nothing_routed)
        (resolve_key stuck_env stereo_preset ''/music/a.wav'' six_channels) = None
         \<or> (\<exists>p. map_of (routed_audio_cache nothing_routed)
                   (resolve_key stuck_env stereo_preset ''/music/a.wav'' six_channels) = Some p
                \<and> p \<notin> files nothing_routed)"
    by (simp add: nothing_routed_def)
  have h4: "routed_path_of stuck_env (resolve_key stuck_env stereo_preset ''/music/a.wav'' six_channels)
        \<notin> files nothing_routed"
    by (simp add: nothing_routed_def routed_path_of_def stuck_env_def failing_env_def plain_env_def)
  have nt: "tmp_path_of stuck_env (resolve_key stuck_env stereo_preset ''/music/a.wav'' six_channels)
        \<notin> files nothing_routed"
    by (simp add: nothing_routed_def tmp_path_of_def stuck_env_def failing_env_def plain_env_def)
  have r: "resolve_playback_source stuck_env stereo_preset nothing_routed ''/music/a.wav''
        = render_routed stuck_env nothing_routed ''/music/a.wav''
            (resolve_key stuck_env stereo_preset ''/music/a.wav'' six_channels)"
    by (rule resolve_reaches_render [OF h1 h2 h3 h4])
  have "render_routed stuck_env nothing_routed ''/music/a.wav''
            (resolve_key stuck_env stereo_preset ''/music/a.wav'' six_channels)
        = (''/music/a.wav'',
           nothing_routed\<lparr>files := insert
              (tmp_path_of stuck_env (resolve_key stuck_env stereo_preset ''/music/a.wav'' six_channels))
              (files nothing_routed)\<rparr>)"
    by (simp add: render_routed_def Let_def stuck_env_def failing_env_def plain_env_def)
  then show ?thesis using r nt by simp
qed

subsection \<open>The cache key and the reuse of routed files\<close>





















end
